theory Spec2Isabelle
  imports Main
begin

section \<open>Data model of package args\<close>

text \<open>
  A Go string is read by the scanner one rune at a time (\<open>ReadRune\<close>) and a token is built
  by writing each rune back (\<open>WriteString(string(c))\<close>).  Strings are therefore modelled as
  lists of code points; a Go \<open>rune\<close> is an \<open>int32\<close>, the delimiter is an \<open>int\<close>, and both
  are HOL integers here.  The input line is taken to be valid UTF-8, on which decoding a
  rune and encoding it again is the identity, so that the runes copied by \<open>io.Copy\<close> and
  \<open>ioutil.ReadAll\<close> are the undecoded rest of the line.  (A byte that is not valid UTF-8
  is read by \<open>ReadRune\<close> as the rune U+FFFD, which a valid line can hold as well.)  The only
  error a reader over a string can produce is \<open>io.EOF\<close>.
\<close>

type_synonym rune = int
type_synonym gostring = "rune list"

definition runes :: "string \<Rightarrow> gostring" where
  "runes s = map of_char s"

definition ESCAPE_CHAR :: rune where
  "ESCAPE_CHAR = 92"

definition OPTION_CHAR :: rune where
  "OPTION_CHAR = 45"

text \<open>The three quote characters: backtick, single quote, double quote.\<close>

definition QUOTE_CHARS :: "rune list" where
  "QUOTE_CHARS = [96, 39, 34]"

text \<open>The symbol characters: bar, greater, less, hash, open brace, open paren, open square.\<close>

definition SYMBOL_CHARS :: "rune list" where
  "SYMBOL_CHARS = [124, 62, 60, 35, 123, 40, 91]"

text \<open>\<open>unicode.ReplacementChar\<close>, U+FFFD.\<close>

definition NO_QUOTE :: rune where
  "NO_QUOTE = 65533"

definition BRACKETS :: "rune \<rightharpoonup> rune" where
  "BRACKETS = [123 \<mapsto> 125, 91 \<mapsto> 93, 40 \<mapsto> 41]"

text \<open>
  \<open>unicode.IsSpace\<close> of the Go standard library: the Latin-1 spaces
  (tab, newline, vertical tab, form feed, carriage return, space, U+0085, U+00A0) and the
  code points of the Unicode property White_Space beyond Latin-1.
\<close>

definition IsSpace :: "rune \<Rightarrow> bool" where
  "IsSpace r \<longleftrightarrow>
     r \<in> set [9, 10, 11, 12, 13, 32, 133, 160, 5760, 8232, 8233, 8239, 8287, 12288]
     \<or> (8192 \<le> r \<and> r \<le> 8202)"

datatype error = EOF

record Scanner =
  rd :: gostring
  InfieldBrackets :: bool

definition NewScannerString :: "gostring \<Rightarrow> Scanner" where
  "NewScannerString s = \<lparr>rd = s, InfieldBrackets = False\<rparr>"

section \<open>NextToken\<close>

text \<open>The local variables of one \<open>NextToken\<close> call.\<close>

record scan_state =
  buf :: gostring
  first :: bool
  escape :: bool
  quote :: rune
  brackets :: "rune list"
  delim :: int

definition init_state :: scan_state where
  "init_state = \<lparr>buf = [], first = True, escape = False, quote = NO_QUOTE,
                  brackets = [], delim = 0\<rparr>"

text \<open>
  What one round of the loop does with the rune it has read: go round again
  (\<open>continue\<close>, or falling off the end of the body), return the token with its delimiter,
  or copy the rest of the input into the buffer and return that.
\<close>

datatype outcome =
    Continue scan_state
  | Return gostring int
  | ReturnRest gostring int

text \<open>The body of the loop from the test \<open>len(brackets) == 0\<close> on.\<close>

definition ordinary :: "bool \<Rightarrow> scan_state \<Rightarrow> rune \<Rightarrow> outcome" where
  "ordinary ifb st c =
     (if brackets st = [] then
        if IsSpace c \<and> quote st = NO_QUOTE then Return (buf st) c
        else if c = quote st then Return (buf st) c
        else Continue (st\<lparr>brackets :=
                             (if ifb then (case BRACKETS c of
                                             Some b \<Rightarrow> brackets st @ [b]
                                           | None \<Rightarrow> brackets st)
                              else brackets st),
                           buf := buf st @ [c]\<rparr>)
      else
        let st1 = st\<lparr>buf := buf st @ [c]\<rparr> in
        if quote st = NO_QUOTE then
          if c = last (brackets st) then
            (if butlast (brackets st) = [] then Return (buf st1) (delim st)
             else Continue (st1\<lparr>brackets := butlast (brackets st)\<rparr>))
          else if c \<in> set QUOTE_CHARS then Continue (st1\<lparr>quote := c\<rparr>)
          else (case BRACKETS c of
                  Some b \<Rightarrow> Continue (st1\<lparr>brackets := brackets st @ [b]\<rparr>)
                | None \<Rightarrow> Continue st1)
        else if c = quote st then Continue (st1\<lparr>quote := NO_QUOTE\<rparr>)
        else Continue st1)"

definition step :: "bool \<Rightarrow> scan_state \<Rightarrow> rune \<Rightarrow> outcome" where
  "step ifb st c =
     (if c = ESCAPE_CHAR \<and> \<not> escape st then Continue (st\<lparr>escape := True, first := False\<rparr>)
      else if escape st then Continue (st\<lparr>escape := False, buf := buf st @ [c]\<rparr>)
      else if first st then
        if IsSpace c then Continue st
        else
          let st0 = st\<lparr>first := False\<rparr> in
          if c \<in> set QUOTE_CHARS then Continue (st0\<lparr>quote := c\<rparr>)
          else (case BRACKETS c of
                  Some b \<Rightarrow> Continue (st0\<lparr>delim := c, brackets := brackets st @ [b],
                                           buf := buf st @ [c]\<rparr>)
                | None \<Rightarrow>
                    if c \<in> set SYMBOL_CHARS then ReturnRest (buf st @ [c]) (delim st)
                    else ordinary ifb st0 c)
      else ordinary ifb st c)"

text \<open>
  The loop itself, over the runes still unread.  At the end of the input a non-empty buffer
  is returned as a token; an empty one gives \<open>io.EOF\<close>.  The second component is the input
  left unread.
\<close>

type_synonym token_result = "gostring \<times> int \<times> error option"

fun scan :: "bool \<Rightarrow> scan_state \<Rightarrow> gostring \<Rightarrow> token_result \<times> gostring" where
  "scan ifb st [] =
     (if buf st \<noteq> [] then ((buf st, delim st, None), [])
      else (([], delim st, Some EOF), []))"
| "scan ifb st (c # cs) =
     (case step ifb st c of
        Continue st' \<Rightarrow> scan ifb st' cs
      | Return s d \<Rightarrow> ((s, d, None), cs)
      | ReturnRest b d \<Rightarrow> ((b @ cs, d, None), []))"

definition NextToken :: "Scanner \<Rightarrow> token_result \<times> Scanner" where
  "NextToken sc =
     (case scan (InfieldBrackets sc) init_state (rd sc) of
        (r, rest) \<Rightarrow> (r, sc\<lparr>rd := rest\<rparr>))"

text \<open>
  A call that returns without error has read at least one rune: the loop of
  \<open>getTokens\<close> below makes progress on every round.
\<close>

lemma scan_rest_le: "scan ifb st cs = (r, rest) \<Longrightarrow> length rest \<le> length cs"
proof (induction cs arbitrary: st)
  case Nil
  then show ?case by (auto split: if_splits)
next
  case (Cons c cs)
  show ?case
  proof (cases "step ifb st c")
    case (Continue st')
    with Cons.prems have "scan ifb st' cs = (r, rest)" by simp
    from Cons.IH [OF this] show ?thesis by simp
  next
    case (Return s d)
    with Cons.prems show ?thesis by auto
  next
    case (ReturnRest b d)
    with Cons.prems show ?thesis by auto
  qed
qed

lemma scan_init_Nil: "scan ifb init_state [] = (([], 0, Some EOF), [])"
  by (simp add: init_state_def)

lemma NextToken_consumes:
  assumes "NextToken sc = ((tok, d, None), sc')"
  shows "length (rd sc') < length (rd sc)"
proof (cases "rd sc")
  case Nil
  with assms show ?thesis
    by (simp add: NextToken_def init_state_def)
next
  case (Cons c cs)
  obtain r rest where sr: "scan (InfieldBrackets sc) init_state (c # cs) = (r, rest)"
    by (cases "scan (InfieldBrackets sc) init_state (c # cs)") auto
  have "length rest \<le> length cs"
  proof (cases "step (InfieldBrackets sc) init_state c")
    case (Continue st')
    with sr have "scan (InfieldBrackets sc) st' cs = (r, rest)" by simp
    then show ?thesis by (rule scan_rest_le)
  next
    case (Return s d)
    with sr show ?thesis by auto
  next
    case (ReturnRest b d)
    with sr show ?thesis by auto
  qed
  moreover from assms sr Cons have "rd sc' = rest"
    by (auto simp: NextToken_def)
  ultimately show ?thesis using Cons by simp
qed

section \<open>Token collectors\<close>

text \<open>\<open>strings.TrimSpace\<close>: the string without its leading and trailing white space.\<close>

definition TrimSpace :: "gostring \<Rightarrow> gostring" where
  "TrimSpace s = rev (dropWhile IsSpace (rev (dropWhile IsSpace s)))"

text \<open>
  The inner loop of \<open>getTokens\<close> in option mode reads runes until it meets the option
  character (and goes on to \<open>NextToken\<close>, the rune unread), or another rune that is not
  a space (and stops with the rest of the input, the rune unread), or the end of the input
  (and stops with the empty rest).
\<close>

datatype skipped = Proceed gostring | Stop gostring

fun skipToOption :: "gostring \<Rightarrow> skipped" where
  "skipToOption [] = Stop []"
| "skipToOption (c # cs) =
     (if c = OPTION_CHAR then Proceed (c # cs)
      else if \<not> IsSpace c then Stop (c # cs)
      else skipToOption cs)"

lemma skipToOption_le: "skipToOption cs = Proceed cs' \<Longrightarrow> length cs' \<le> length cs"
  by (induction cs) (auto split: if_splits)

type_synonym tokens_result = "gostring list \<times> gostring \<times> error option"

function getTokens :: "int \<Rightarrow> int \<Rightarrow> gostring list \<Rightarrow> Scanner \<Rightarrow> tokens_result \<times> Scanner" where
  "getTokens maxn i tokens sc =
     (if maxn \<le> 0 \<or> i < maxn then
        (case (if maxn < 0 then skipToOption (rd sc) else Proceed (rd sc)) of
           Stop rest \<Rightarrow> ((tokens, rest, None), sc\<lparr>rd := []\<rparr>)
         | Proceed cs \<Rightarrow>
             (case NextToken (sc\<lparr>rd := cs\<rparr>) of
                ((tok, d, Some e), sc') \<Rightarrow> ((tokens, [], Some e), sc')
              | ((tok, d, None), sc') \<Rightarrow> getTokens maxn (i + 1) (tokens @ [tok]) sc'))
      else ((tokens, TrimSpace (rd sc), None), sc\<lparr>rd := []\<rparr>))"
  by pat_completeness auto
termination
  apply (relation "measure (\<lambda>(maxn, i, tokens, sc). length (rd sc))")
   apply simp
  apply (auto split: if_splits dest!: skipToOption_le NextToken_consumes [OF sym])
  done

declare getTokens.simps [simp del]

definition GetTokens :: "Scanner \<Rightarrow> (gostring list \<times> error option) \<times> Scanner" where
  "GetTokens sc = (case getTokens 0 0 [] sc of ((tokens, rest, err), sc') \<Rightarrow> ((tokens, err), sc'))"

definition GetTokensN :: "Scanner \<Rightarrow> int \<Rightarrow> tokens_result \<times> Scanner" where
  "GetTokensN sc n = getTokens n 0 [] sc"

definition GetOptionTokens :: "Scanner \<Rightarrow> tokens_result \<times> Scanner" where
  "GetOptionTokens sc = getTokens (- 1) 0 [] sc"

text \<open>
  A \<open>GetArgsOption\<close> is a function that configures the scanner; the package has one,
  \<open>InfieldBrackets()\<close>.
\<close>

type_synonym GetArgsOption = "Scanner \<Rightarrow> Scanner"

definition InfieldBrackets_option :: GetArgsOption where
  "InfieldBrackets_option s = s\<lparr>InfieldBrackets := True\<rparr>"

definition getScanner :: "gostring \<Rightarrow> GetArgsOption list \<Rightarrow> Scanner" where
  "getScanner line options = fold (\<lambda>option scanner. option scanner) options (NewScannerString line)"

definition GetArgs :: "gostring \<Rightarrow> GetArgsOption list \<Rightarrow> gostring list" where
  "GetArgs line options = fst (fst (GetTokensN (getScanner line options) 0))"

definition GetArgsN :: "gostring \<Rightarrow> int \<Rightarrow> GetArgsOption list \<Rightarrow> gostring list" where
  "GetArgsN line n options =
     (case fst (GetTokensN (getScanner line options) (if n > 0 then n - 1 else n)) of
        (args, rest, err) \<Rightarrow> if rest \<noteq> [] then args @ [rest] else args)"

definition GetOptions :: "gostring \<Rightarrow> GetArgsOption list \<Rightarrow> gostring list \<times> gostring" where
  "GetOptions line scanOptions =
     (case fst (GetOptionTokens (getScanner line scanOptions)) of
        (options, rest, err) \<Rightarrow> (options, rest))"

section \<open>Option classifier\<close>

record Args =
  Options :: "gostring \<rightharpoonup> gostring"
  Arguments :: "gostring list"

definition GetOption :: "Args \<Rightarrow> gostring \<Rightarrow> gostring \<Rightarrow> gostring" where
  "GetOption a name def = (case Options a name of Some val \<Rightarrow> val | None \<Rightarrow> def)"

text \<open>
  \<open>strconv.Atoi\<close> of the Go standard library, for a 64-bit \<open>int\<close>.  The library works on
  the bytes of the string; a rune beyond ASCII is two to four bytes, none of them a
  digit or a sign, so that it ends the digits where its first byte does.
  \<open>byte_len\<close> is \<open>len(s)\<close>, the number of bytes.
\<close>

datatype NumError = ErrSyntax | ErrRange

definition byte_len :: "gostring \<Rightarrow> nat" where
  "byte_len s =
     sum_list (map (\<lambda>c. if c < 128 then 1 else if c < 2048 then 2
                          else if c < 65536 then 3 else 4) s)"

text \<open>
  The digit loop of \<open>ParseUint(s, 10, 64)\<close>, with \<open>n\<close> the \<open>uint64\<close> read so far.  A rune
  that is no digit gives 0 and a syntax error.  A digit that takes the value beyond
  \<open>2^64 - 1\<close> gives that bound and a range error at once, whatever follows: either \<open>n\<close>
  has reached the cutoff \<open>maxUint64/10 + 1\<close>, or the sum \<open>n*10 + d\<close> wraps around.
\<close>

fun ParseUint_digits :: "int \<Rightarrow> gostring \<Rightarrow> int \<times> NumError option" where
  "ParseUint_digits n [] = (n, None)"
| "ParseUint_digits n (c # cs) =
     (if 48 \<le> c \<and> c \<le> 57 then
        if 1844674407370955162 \<le> n then (2 ^ 64 - 1, Some ErrRange)
        else
          let n1 = (n * 10 + (c - 48)) mod 2 ^ 64 in
          if n1 < n * 10 \<or> 2 ^ 64 - 1 < n1 then (2 ^ 64 - 1, Some ErrRange)
          else ParseUint_digits n1 cs
      else (0, Some ErrSyntax))"

definition ParseUint :: "gostring \<Rightarrow> int \<times> NumError option" where
  "ParseUint s = (if s = [] then (0, Some ErrSyntax) else ParseUint_digits 0 s)"

text \<open>
  \<open>ParseInt(s, 10, 0)\<close>: the sign is picked off, the rest is read by \<open>ParseUint\<close>; a syntax
  error gives 0, and a value beyond the 64-bit signed range (also the bound that
  \<open>ParseUint\<close> returns with its range error) gives the nearest value of the range and a
  range error.
\<close>

definition ParseInt :: "gostring \<Rightarrow> int \<times> NumError option" where
  "ParseInt s =
     (if s = [] then (0, Some ErrSyntax)
      else
        let neg = (take 1 s = [45]);
            s' = (if take 1 s = [43] \<or> take 1 s = [45] then drop 1 s else s)
        in (case ParseUint s' of
              (un, Some ErrSyntax) \<Rightarrow> (0, Some ErrSyntax)
            | (un, err) \<Rightarrow>
                if \<not> neg \<and> 2 ^ 63 \<le> un then (2 ^ 63 - 1, Some ErrRange)
                else if neg \<and> 2 ^ 63 < un then (- (2 ^ 63), Some ErrRange)
                else (if neg then - un else un, None)))"

text \<open>
  The loop of the fast path of \<open>Atoi\<close>, for a string of fewer than 19 bytes: no test for
  overflow, \<open>None\<close> at a byte that is no digit.
\<close>

fun Atoi_fast_digits :: "int \<Rightarrow> gostring \<Rightarrow> int option" where
  "Atoi_fast_digits n [] = Some n"
| "Atoi_fast_digits n (c # cs) =
     (if 48 \<le> c \<and> c \<le> 57 then Atoi_fast_digits (n * 10 + (c - 48)) cs else None)"

definition Atoi :: "gostring \<Rightarrow> int \<times> NumError option" where
  "Atoi s =
     (if 0 < byte_len s \<and> byte_len s < 19 then
        let s' = (if take 1 s = [45] \<or> take 1 s = [43] then drop 1 s else s)
        in if s' = [] then (0, Some ErrSyntax)
           else (case Atoi_fast_digits 0 s' of
                   None \<Rightarrow> (0, Some ErrSyntax)
                 | Some n \<Rightarrow> (if take 1 s = [45] then - n else n, None))
      else ParseInt s)"

definition GetIntOption :: "Args \<Rightarrow> gostring \<Rightarrow> int \<Rightarrow> int" where
  "GetIntOption a name def = (case Options a name of Some val \<Rightarrow> fst (Atoi val) | None \<Rightarrow> def)"

text \<open>The functions of package \<open>strings\<close> that \<open>ParseArgs\<close> calls.\<close>

definition HasPrefix :: "gostring \<Rightarrow> gostring \<Rightarrow> bool" where
  "HasPrefix s prefix = (take (length prefix) s = prefix)"

definition TrimLeft :: "gostring \<Rightarrow> gostring \<Rightarrow> gostring" where
  "TrimLeft s cutset = dropWhile (\<lambda>c. c \<in> set cutset) s"

fun Contains :: "gostring \<Rightarrow> gostring \<Rightarrow> bool" where
  "Contains [] substr = (substr = [])"
| "Contains (c # cs) substr = (HasPrefix (c # cs) substr \<or> Contains cs substr)"

text \<open>
  \<open>strings.SplitN(s, sep, 2)\<close> for a separator that occurs in \<open>s\<close>: the text before its
  first occurrence and the text after it.
\<close>

fun SplitN2 :: "gostring \<Rightarrow> gostring \<Rightarrow> gostring \<times> gostring" where
  "SplitN2 [] sep = ([], [])"
| "SplitN2 (c # cs) sep =
     (if HasPrefix (c # cs) sep then ([], drop (length sep) (c # cs))
      else (case SplitN2 cs sep of (key, val) \<Rightarrow> (c # key, val)))"

text \<open>The loop of \<open>ParseArgs\<close> over the arguments not yet classified.\<close>

fun parseOptions :: "(gostring \<rightharpoonup> gostring) \<Rightarrow> gostring list \<Rightarrow> Args" where
  "parseOptions opts [] = \<lparr>Options = opts, Arguments = []\<rparr>"
| "parseOptions opts (arg # args) =
     (if \<not> HasPrefix arg (runes ''-'') then \<lparr>Options = opts, Arguments = arg # args\<rparr>
      else if arg = runes ''--'' then \<lparr>Options = opts, Arguments = args\<rparr>
      else
        let arg' = TrimLeft arg (runes ''-'') in
        if Contains arg' (runes ''='') then
          (case SplitN2 arg' (runes ''='') of
             (key, val) \<Rightarrow> parseOptions (opts(key \<mapsto> val)) args)
        else parseOptions (opts(arg' \<mapsto> [])) args)"

definition ParseArgs :: "gostring \<Rightarrow> Args" where
  "ParseArgs line = parseOptions Map.empty (GetArgs line [])"

section \<open>The states of the scanning loop\<close>

text \<open>
  The local variables of \<open>NextToken\<close> once its loop has read the runes \<open>cs\<close> and has gone
  round after each of them; \<open>None\<close> when it has returned before the end of \<open>cs\<close>.
\<close>

fun run :: "bool \<Rightarrow> scan_state \<Rightarrow> gostring \<Rightarrow> scan_state option" where
  "run ifb st [] = Some st"
| "run ifb st (c # cs) =
     (case step ifb st c of
        Continue st' \<Rightarrow> run ifb st' cs
      | Return s d \<Rightarrow> None
      | ReturnRest b d \<Rightarrow> None)"

text \<open>
  What holds of the local variables throughout a call.  Before the token has begun nothing
  is buffered and nothing is open.  Once it has begun, the buffer is empty only right
  after a backslash or inside a top-level quoted token, and then no bracket is open and
  the delimiter is not set.
\<close>

definition scanning :: "scan_state \<Rightarrow> bool" where
  "scanning st \<longleftrightarrow>
     (if first st then
        buf st = [] \<and> \<not> escape st \<and> quote st = NO_QUOTE \<and> brackets st = [] \<and> delim st = 0
      else
        buf st \<noteq> [] \<or>
        (brackets st = [] \<and> delim st = 0 \<and> (escape st \<or> quote st \<in> set QUOTE_CHARS)))"

text \<open>
  A rune with no special meaning to the scanner: not a space, not the backslash, not a
  quote, not a symbol character (the opening brackets are among them) and not U+FFFD.
\<close>

definition plain :: "rune \<Rightarrow> bool" where
  "plain c \<longleftrightarrow>
     \<not> IsSpace c \<and> c \<noteq> ESCAPE_CHAR \<and> c \<notin> set QUOTE_CHARS \<and> c \<notin> set SYMBOL_CHARS
     \<and> c \<noteq> NO_QUOTE"

section \<open>Definitions that follow the specification\<close>

text \<open>
  Splitting on white space with the backslash honoured, as the specification words it.
  First the backslashes are resolved: a backslash that is not itself escaped is dropped and
  marks the rune after it as escaped (a backslash at the very end has nothing to mark).
\<close>

fun unescape :: "gostring \<Rightarrow> (bool \<times> rune) list" where
  "unescape [] = []"
| "unescape [c] = (if c = ESCAPE_CHAR then [] else [(False, c)])"
| "unescape (c # e # es) =
     (if c = ESCAPE_CHAR then (True, e) # unescape es else (False, c) # unescape (e # es))"

text \<open>
  Then the marked runes are split at each white space that is not escaped; \<open>cur\<close> is the
  field being read, and empty fields are dropped.
\<close>

fun fields :: "gostring \<Rightarrow> (bool \<times> rune) list \<Rightarrow> gostring list" where
  "fields cur [] = (if cur = [] then [] else [cur])"
| "fields cur ((esc, c) # xs) =
     (if \<not> esc \<and> IsSpace c then (if cur = [] then [] else [cur]) @ fields [] xs
      else fields (cur @ [c]) xs)"

definition split_escaped :: "gostring \<Rightarrow> gostring list" where
  "split_escaped line = fields [] (unescape line)"

text \<open>A rune that is no quote, no symbol character (so no opening bracket) and not U+FFFD.\<close>

definition unquoted :: "rune \<Rightarrow> bool" where
  "unquoted c \<longleftrightarrow> c \<notin> set QUOTE_CHARS \<and> c \<notin> set SYMBOL_CHARS \<and> c \<noteq> NO_QUOTE"

text \<open>
  The tokens that draining the scanner yields when the call in progress is in state \<open>st\<close>
  and the runes \<open>cs\<close> are unread.
\<close>

definition tokens_from :: "bool \<Rightarrow> scan_state \<Rightarrow> gostring \<Rightarrow> gostring list" where
  "tokens_from ifb st cs =
     (case scan ifb st cs of
        ((s, d, None), rest) \<Rightarrow>
          s # fst (fst (getTokens 0 0 [] \<lparr>rd = rest, InfieldBrackets = ifb\<rparr>))
      | ((s, d, Some e), rest) \<Rightarrow> [])"

text \<open>
  A bracketed region, as the specification words it: a span opened by an opening bracket
  and closed by its matching partner, holding nested quotes and nested brackets.  The
  contents \<open>items cl\<close> of a region whose closing bracket is \<open>cl\<close> are a sequence of single
  runes (other than \<open>cl\<close>, a quote, an opening bracket and the backslash), of quoted texts
  (a quote, runes other than that quote and the backslash, the same quote) and of nested
  regions.
\<close>

inductive items :: "rune \<Rightarrow> gostring \<Rightarrow> bool" where
  Nil: "items cl []"
| Rune: "c \<noteq> cl \<Longrightarrow> c \<notin> set QUOTE_CHARS \<Longrightarrow> BRACKETS c = None \<Longrightarrow> c \<noteq> ESCAPE_CHAR
         \<Longrightarrow> items cl xs \<Longrightarrow> items cl (c # xs)"
| Quoted: "q \<in> set QUOTE_CHARS \<Longrightarrow> q \<notin> set body \<Longrightarrow> ESCAPE_CHAR \<notin> set body
         \<Longrightarrow> items cl xs \<Longrightarrow> items cl (q # body @ q # xs)"
| Nested: "BRACKETS opn = Some cl' \<Longrightarrow> items cl' body \<Longrightarrow> items cl xs
         \<Longrightarrow> items cl (opn # body @ cl' # xs)"

definition region :: "gostring \<Rightarrow> bool" where
  "region r \<longleftrightarrow> (\<exists>opn cl body. BRACKETS opn = Some cl \<and> items cl body \<and> r = opn # body @ [cl])"

text \<open>
  The decimal reading of a value, as the specification's "parsed as an integer": a decimal
  digit, the number that a string of digits denotes, the sign of a value and the value
  without its sign.
\<close>

definition is_digit :: "rune \<Rightarrow> bool" where
  "is_digit c \<longleftrightarrow> 48 \<le> c \<and> c \<le> 57"

definition decimal :: "gostring \<Rightarrow> int" where
  "decimal ds = foldl (\<lambda>n c. n * 10 + (c - 48)) 0 ds"

definition negative :: "gostring \<Rightarrow> bool" where
  "negative val \<longleftrightarrow> take 1 val = [45]"

definition unsigned_part :: "gostring \<Rightarrow> gostring" where
  "unsigned_part val = (if take 1 val = [43] \<or> take 1 val = [45] then drop 1 val else val)"

section \<open>Auxiliary lemmas\<close>

subsection \<open>The documented examples of the package\<close>

text \<open>
  The model gives the output that the package's \<open>ExampleGetArgs\<close> and \<open>ExampleParseArgs\<close>
  document.  Double quote, single quote and backslash are written as the code points 34,
  39 and 92.
\<close>

lemma ExampleGetArgs_output:
  "GetArgs (runes ''one two three '' @ [34] @ runes ''double quotes'' @ [34, 32, 39]
      @ runes ''single quotes'' @ [39, 32] @ runes ''arg'' @ [92] @ runes '' with'' @ [92]
      @ runes '' spaces '' @ [34, 92, 34] @ runes ''quotes'' @ [92, 34] @ runes '' in ''
      @ [39] @ runes ''quotes'' @ [39, 34, 32, 39, 34] @ runes ''quotes'' @ [34]
      @ runes '' in '' @ [92, 39] @ runes ''quotes'' @ [39, 34]) []
   = [runes ''one'', runes ''two'', runes ''three'', runes ''double quotes'',
      runes ''single quotes'', runes ''arg with spaces'',
      [34] @ runes ''quotes'' @ [34] @ runes '' in '' @ [39] @ runes ''quotes'' @ [39],
      [34] @ runes ''quotes'' @ [34] @ runes '' in '' @ [39] @ runes ''quotes'']"
  by code_simp

lemma ExampleParseArgs_output:
  "ParseArgs (runes
      ''-l --number=42 -where=here -- -not-an-option- one two three |pipers piping'') =
     \<lparr>Options = [runes ''l'' \<mapsto> runes '''', runes ''number'' \<mapsto> runes ''42'',
                 runes ''where'' \<mapsto> runes ''here''],
      Arguments = map runes [''-not-an-option-'', ''one'', ''two'', ''three'',
                             ''|pipers piping'']\<rparr>"
proof -
  have "GetArgs (runes
      ''-l --number=42 -where=here -- -not-an-option- one two three |pipers piping'') [] =
      map runes [''-l'', ''--number=42'', ''-where=here'', ''--'', ''-not-an-option-'',
                 ''one'', ''two'', ''three'', ''|pipers piping'']"
    by code_simp
  then show ?thesis
    unfolding ParseArgs_def
    by (simp add: runes_def HasPrefix_def TrimLeft_def)
qed

lemma GetArgs_parse_example:
  "GetArgs (runes ''-l --number=42 -where=here -- -not-an-option- one two three'') [] =
     map runes [''-l'', ''--number=42'', ''-where=here'', ''--'', ''-not-an-option-'',
                ''one'', ''two'', ''three'']"
  by code_simp

subsection \<open>Leading spaces, the end of the input\<close>

lemma IsSpace_not_special:
  assumes "IsSpace c"
  shows "c \<noteq> ESCAPE_CHAR" "c \<notin> set QUOTE_CHARS" "c \<notin> set SYMBOL_CHARS"
    "BRACKETS c = None" "c \<noteq> NO_QUOTE" "c \<noteq> OPTION_CHAR"
  using assms
  by (auto simp: IsSpace_def ESCAPE_CHAR_def QUOTE_CHARS_def SYMBOL_CHARS_def BRACKETS_def
      NO_QUOTE_def OPTION_CHAR_def)

lemma step_init_space: "IsSpace c \<Longrightarrow> step ifb init_state c = Continue init_state"
  by (simp add: step_def init_state_def IsSpace_not_special)

lemma scan_skip_spaces:
  "\<forall>w\<in>set ws. IsSpace w \<Longrightarrow> scan ifb init_state (ws @ cs) = scan ifb init_state cs"
  by (induction ws) (simp_all add: step_init_space)

lemma step_init_symbol:
  assumes "c \<in> set SYMBOL_CHARS" "BRACKETS c = None"
  shows "step ifb init_state c = ReturnRest [c] 0"
proof -
  from assms have "c \<noteq> ESCAPE_CHAR" "\<not> IsSpace c" "c \<notin> set QUOTE_CHARS"
    by (auto simp: SYMBOL_CHARS_def ESCAPE_CHAR_def IsSpace_def QUOTE_CHARS_def)
  with assms show ?thesis
    by (simp add: step_def init_state_def)
qed

lemma NextToken_Nil: "rd sc = [] \<Longrightarrow> NextToken sc = (([], 0, Some EOF), sc)"
  by (simp add: NextToken_def init_state_def)

lemma getTokens_all_Nil:
  "rd sc = [] \<Longrightarrow> getTokens 0 i tokens sc = ((tokens, [], Some EOF), sc)"
  by (subst getTokens.simps) (simp add: NextToken_Nil)

lemma getScanner_Nil: "getScanner line [] = \<lparr>rd = line, InfieldBrackets = False\<rparr>"
  by (simp add: getScanner_def NewScannerString_def)

lemma getScanner_Infield:
  "getScanner line [InfieldBrackets_option] = \<lparr>rd = line, InfieldBrackets = True\<rparr>"
  by (simp add: getScanner_def NewScannerString_def InfieldBrackets_option_def)

subsection \<open>What holds throughout a call\<close>

lemma scanning_init: "scanning init_state"
  by (simp add: scanning_def init_state_def)

lemma scanning_step:
  assumes "scanning st" "step ifb st c = Continue st'"
  shows "scanning st'"
  using assms
  by (auto simp: scanning_def step_def ordinary_def Let_def
      split: if_splits option.splits)

lemma scanning_run:
  "scanning st \<Longrightarrow> run ifb st cs = Some st' \<Longrightarrow> scanning st'"
proof (induction cs arbitrary: st)
  case Nil
  then show ?case by simp
next
  case (Cons c cs)
  then show ?case
    by (auto split: outcome.splits dest: scanning_step)
qed

lemma scanning_brackets: "scanning st \<Longrightarrow> brackets st \<noteq> [] \<Longrightarrow> \<not> first st \<and> buf st \<noteq> []"
  by (auto simp: scanning_def split: if_splits)

lemma in_brackets_step:
  assumes "brackets st \<noteq> []" "\<not> first st"
  shows "case step ifb st c of
           Continue st' \<Rightarrow>
             buf st' = (if c = ESCAPE_CHAR \<and> \<not> escape st then buf st else buf st @ [c])
         | Return s d \<Rightarrow> \<not> (c = ESCAPE_CHAR \<and> \<not> escape st) \<and> s = buf st @ [c]
         | ReturnRest b d \<Rightarrow> False"
  using assms
  by (auto simp: step_def ordinary_def Let_def split: option.splits)

lemma run_open_brace:
  "run False init_state [123] = Some \<lparr>buf = [123], first = False, escape = False,
     quote = NO_QUOTE, brackets = [125], delim = 123\<rparr>"
  by code_simp

subsection \<open>Errors, empty tokens and plain words\<close>

lemma scan_error:
  "scanning st \<Longrightarrow> scan ifb st cs = ((s, d, Some e), rest)
   \<Longrightarrow> s = [] \<and> d = 0 \<and> e = EOF \<and> rest = []"
proof (induction cs arbitrary: st)
  case Nil
  then show ?case
    by (auto simp: scanning_def split: if_splits)
next
  case (Cons c cs)
  then show ?case
    by (auto split: outcome.splits dest: scanning_step)
qed

lemma NO_QUOTE_not_quote: "NO_QUOTE \<notin> set QUOTE_CHARS"
  by (simp add: NO_QUOTE_def QUOTE_CHARS_def)

lemma step_Return_empty:
  assumes "scanning st" "step ifb st c = Return [] d"
  shows "d = c \<and> (c \<in> set QUOTE_CHARS \<or> c = NO_QUOTE)"
  using assms
  by (auto simp: NO_QUOTE_not_quote scanning_def step_def ordinary_def Let_def split: if_splits option.splits)

lemma step_ReturnRest_nonempty: "step ifb st c = ReturnRest b d \<Longrightarrow> b \<noteq> []"
  by (auto simp: step_def ordinary_def Let_def split: if_splits option.splits)

lemma scan_empty_token:
  "scanning st \<Longrightarrow> scan ifb st cs = (([], d, None), rest)
   \<Longrightarrow> d \<in> set QUOTE_CHARS \<or> d = NO_QUOTE"
proof (induction cs arbitrary: st)
  case Nil
  then show ?case
    by (auto split: if_splits)
next
  case (Cons c cs)
  show ?case
  proof (cases "step ifb st c")
    case (Continue st')
    with Cons.prems have "scanning st'" "scan ifb st' cs = (([], d, None), rest)"
      by (auto dest: scanning_step)
    then show ?thesis by (rule Cons.IH)
  next
    case (Return s d')
    with Cons.prems have "step ifb st c = Return [] d" by auto
    with Cons.prems(1) show ?thesis
      by (auto dest: step_Return_empty)
  next
    case (ReturnRest b d')
    with Cons.prems show ?thesis
      by (auto dest: step_ReturnRest_nonempty)
  qed
qed

lemma plain_not_bracket: "plain c \<Longrightarrow> BRACKETS c = None"
  by (auto simp: plain_def SYMBOL_CHARS_def BRACKETS_def)

lemma step_plain:
  assumes "plain c" "\<not> escape st" "quote st = NO_QUOTE" "brackets st = []"
  shows "step ifb st c = Continue (st\<lparr>first := False, buf := buf st @ [c]\<rparr>)"
  using assms plain_not_bracket [OF assms(1)]
  by (cases st) (auto simp: step_def ordinary_def Let_def plain_def)

lemma scan_plain_word:
  "\<forall>c\<in>set w. plain c \<Longrightarrow> w \<noteq> [] \<Longrightarrow> \<not> escape st \<Longrightarrow> quote st = NO_QUOTE
   \<Longrightarrow> brackets st = []
   \<Longrightarrow> scan ifb st w = ((buf st @ w, delim st, None), [])"
proof (induction w arbitrary: st)
  case Nil
  then show ?case by simp
next
  case (Cons c w)
  let ?st' = "st\<lparr>first := False, buf := buf st @ [c]\<rparr>"
  from Cons.prems have st: "step ifb st c = Continue ?st'"
    by (simp add: step_plain)
  show ?case
  proof (cases "w = []")
    case True
    with st show ?thesis by simp
  next
    case False
    with Cons.prems have "scan ifb ?st' w = ((buf ?st' @ w, delim ?st', None), [])"
      by (intro Cons.IH) simp_all
    with st show ?thesis by simp
  qed
qed

lemma NextToken_error:
  assumes "NextToken sc = ((s, d, Some e), sc')"
  shows "s = [] \<and> d = 0 \<and> e = EOF \<and> rd sc' = []"
proof -
  obtain r rest where sr: "scan (InfieldBrackets sc) init_state (rd sc) = (r, rest)"
    by (cases "scan (InfieldBrackets sc) init_state (rd sc)") auto
  with assms have "r = (s, d, Some e)" "rd sc' = rest"
    by (auto simp: NextToken_def)
  with sr scan_error [OF scanning_init, of "InfieldBrackets sc" "rd sc" s d e rest]
  show ?thesis by simp
qed

lemma getTokens_all:
  "getTokens 0 i tokens sc = ((toks, rest, err), sc') \<Longrightarrow> err = Some EOF \<and> rd sc' = []"
proof (induction "length (rd sc)" arbitrary: sc i tokens rule: less_induct)
  case less
  obtain tok d e sc1 where nt: "NextToken sc = ((tok, d, e), sc1)"
    by (metis prod_cases3 surj_pair)
  show ?case
  proof (cases e)
    case None
    with nt have "length (rd sc1) < length (rd sc)"
      by (auto dest: NextToken_consumes)
    moreover from less.prems nt None
    have "getTokens 0 (i + 1) (tokens @ [tok]) sc1 = ((toks, rest, err), sc')"
      by (subst (asm) getTokens.simps) simp
    ultimately show ?thesis
      by (rule less.hyps)
  next
    case (Some e')
    with nt have "e' = EOF \<and> rd sc1 = []"
      by (auto dest: NextToken_error)
    moreover from less.prems nt Some have "err = Some e'" "sc' = sc1"
      by (subst (asm) getTokens.simps, simp)+
    ultimately show ?thesis by simp
  qed
qed

subsection \<open>Integer options\<close>

text \<open>The two paths of \<open>Atoi\<close> agree, so that \<open>Atoi\<close> is \<open>ParseInt\<close> on every string.\<close>

lemma length_le_byte_len: "length s \<le> byte_len s"
  unfolding byte_len_def by (induction s) auto

lemma fast_digits_no_overflow:
  "0 \<le> n \<Longrightarrow> n < 10 ^ m \<Longrightarrow> m + length cs \<le> 18
   \<Longrightarrow> ParseUint_digits n cs
       = (case Atoi_fast_digits n cs of None \<Rightarrow> (0, Some ErrSyntax) | Some v \<Rightarrow> (v, None))
     \<and> (\<forall>v. Atoi_fast_digits n cs = Some v \<longrightarrow> 0 \<le> v \<and> v < 10 ^ 18)"
proof (induction cs arbitrary: n m)
  case Nil
  have "(10::int) ^ m \<le> 10 ^ 18"
    using Nil.prems(3) by (intro power_increasing) simp_all
  with Nil show ?case by simp
next
  case (Cons c cs)
  show ?case
  proof (cases "48 \<le> c \<and> c \<le> 57")
    case False
    then show ?thesis by auto
  next
    case True
    let ?n1 = "n * 10 + (c - 48)"
    from Cons.prems(3) have m: "Suc m \<le> 18" by simp
    have "(10::int) ^ Suc m \<le> 10 ^ 18"
      using m by (intro power_increasing) simp_all
    moreover from Cons.prems(2) True have lt: "?n1 < 10 ^ Suc m" by simp
    ultimately have small: "?n1 < 10 ^ 18" by linarith
    from Cons.prems(1) True have nn: "0 \<le> ?n1" "n * 10 \<le> ?n1" by simp_all
    from small nn have md: "?n1 mod 2 ^ 64 = ?n1" by simp
    from small nn have ncut: "\<not> 1844674407370955162 \<le> n" by simp
    have IH: "ParseUint_digits ?n1 cs
       = (case Atoi_fast_digits ?n1 cs of None \<Rightarrow> (0, Some ErrSyntax) | Some v \<Rightarrow> (v, None))
     \<and> (\<forall>v. Atoi_fast_digits ?n1 cs = Some v \<longrightarrow> 0 \<le> v \<and> v < 10 ^ 18)"
      using nn(1) lt Cons.prems(3) by (intro Cons.IH [of ?n1 "Suc m"]) simp_all
    from small nn have "\<not> (?n1 < n * 10 \<or> 2 ^ 64 - 1 < ?n1)" by simp
    with True ncut md IH show ?thesis
      by (simp add: Let_def)
  qed
qed

lemma Atoi_eq_ParseInt: "Atoi s = ParseInt s"
proof (cases "0 < byte_len s \<and> byte_len s < 19")
  case False
  then show ?thesis unfolding Atoi_def by (rule if_not_P)
next
  case True
  let ?s' = "if take 1 s = [43] \<or> take 1 s = [45] then drop 1 s else s"
  from True have ne: "s \<noteq> []" by (auto simp: byte_len_def)
  from True length_le_byte_len [of s] have "length ?s' \<le> 18" by auto
  then have fd: "ParseUint_digits 0 ?s'
       = (case Atoi_fast_digits 0 ?s' of None \<Rightarrow> (0, Some ErrSyntax) | Some v \<Rightarrow> (v, None))"
    and bound: "\<And>v. Atoi_fast_digits 0 ?s' = Some v \<Longrightarrow> 0 \<le> v \<and> v < 10 ^ 18"
    using fast_digits_no_overflow [of 0 0 ?s'] by simp_all
  show ?thesis
  proof (cases "?s' = []")
    case e: True
    with True ne show ?thesis
      by (simp add: Atoi_def ParseInt_def ParseUint_def Let_def disj_commute)
  next
    case n: False
    show ?thesis
    proof (cases "Atoi_fast_digits 0 ?s'")
      case None
      with True ne n fd show ?thesis
        by (simp add: Atoi_def ParseInt_def ParseUint_def Let_def disj_commute)
    next
      case (Some v)
      from bound [OF Some] have "0 \<le> v" "v < 2 ^ 63" by simp_all
      with True ne n fd Some show ?thesis
        by (simp add: Atoi_def ParseInt_def ParseUint_def Let_def disj_commute)
    qed
  qed
qed

text \<open>What \<open>ParseUint\<close> and \<open>ParseInt\<close> return, in terms of the number that the digits denote.\<close>

lemma foldl_digits_mono:
  "0 \<le> n \<Longrightarrow> \<forall>c\<in>set ds. is_digit c \<Longrightarrow> n \<le> foldl (\<lambda>n c. n * 10 + (c - 48)) n ds"
proof (induction ds arbitrary: n)
  case Nil
  then show ?case by simp
next
  case (Cons c ds)
  then have "0 \<le> n * 10 + (c - 48)" "n \<le> n * 10 + (c - 48)"
    by (simp_all add: is_digit_def)
  moreover from this(1) Cons.prems
  have "n * 10 + (c - 48) \<le> foldl (\<lambda>n c. n * 10 + (c - 48)) (n * 10 + (c - 48)) ds"
    by (intro Cons.IH) simp_all
  ultimately show ?case by simp
qed

lemma takeWhile_digits: "\<forall>c\<in>set (takeWhile is_digit cs). is_digit c"
  by (auto dest: set_takeWhileD)

lemma decimal_nonneg: "0 \<le> decimal (takeWhile is_digit cs)"
  unfolding decimal_def using foldl_digits_mono [OF _ takeWhile_digits, of 0 cs] by simp

lemma ParseUint_digits_Cons:
  "ParseUint_digits n (c # cs) =
     (if is_digit c then
        if 1844674407370955162 \<le> n then (2 ^ 64 - 1, Some ErrRange)
        else
          let n1 = (n * 10 + (c - 48)) mod 2 ^ 64 in
          if n1 < n * 10 \<or> 2 ^ 64 - 1 < n1 then (2 ^ 64 - 1, Some ErrRange)
          else ParseUint_digits n1 cs
      else (0, Some ErrSyntax))"
  by (simp add: is_digit_def)

lemma ParseUint_digits_decimal:
  "0 \<le> n \<Longrightarrow> n < 2 ^ 64 \<Longrightarrow>
   ParseUint_digits n cs =
     (let ds = takeWhile is_digit cs; v = foldl (\<lambda>n c. n * 10 + (c - 48)) n ds
      in if 2 ^ 64 \<le> v then (2 ^ 64 - 1, Some ErrRange)
         else if ds \<noteq> cs then (0, Some ErrSyntax)
         else (v, None))"
proof (induction cs arbitrary: n)
  case Nil
  then show ?case by simp
next
  case (Cons c cs)
  show ?case
  proof (cases "is_digit c")
    case False
    with Cons.prems show ?thesis
      by (simp add: ParseUint_digits_Cons del: ParseUint_digits.simps(2))
  next
    case True
    let ?n1 = "n * 10 + (c - 48)"
    let ?v = "foldl (\<lambda>n c. n * 10 + (c - 48)) ?n1 (takeWhile is_digit cs)"
    from True Cons.prems have n1: "0 \<le> ?n1" "n * 10 \<le> ?n1" "?n1 \<le> n * 10 + 9"
      by (simp_all add: is_digit_def)
    from n1(1) have mono: "?n1 \<le> ?v"
      by (intro foldl_digits_mono takeWhile_digits)
    show ?thesis
    proof (cases "?n1 < 2 ^ 64")
      case small: True
      with n1 have ncut: "\<not> 1844674407370955162 \<le> n" by simp
      from small n1 have md: "?n1 mod 2 ^ 64 = ?n1" by simp
      from small n1 have ok: "\<not> (?n1 < n * 10 \<or> 2 ^ 64 - 1 < ?n1)" by simp
      from Cons.IH [OF n1(1) small] True ncut md ok show ?thesis
        by (simp add: Let_def ParseUint_digits_Cons del: ParseUint_digits.simps(2))
    next
      case big: False
      with mono have v: "2 ^ 64 \<le> ?v" by simp
      have "ParseUint_digits n (c # cs) = (2 ^ 64 - 1, Some ErrRange)"
      proof (cases "1844674407370955162 \<le> n")
        case True
        with \<open>is_digit c\<close> show ?thesis
          by (simp add: ParseUint_digits_Cons del: ParseUint_digits.simps(2))
      next
        case False
        with n1 big have "2 ^ 64 \<le> ?n1" "?n1 < 2 ^ 64 + 2 ^ 64" by simp_all
        then have "?n1 mod 2 ^ 64 = ?n1 - 2 ^ 64"
          by (simp add: mod_pos_geq)
        moreover from False n1 big have "?n1 - 2 ^ 64 < n * 10" by simp
        ultimately show ?thesis
          using False \<open>is_digit c\<close>
          by (simp add: Let_def ParseUint_digits_Cons del: ParseUint_digits.simps(2))
      qed
      with v True show ?thesis
        by (simp add: Let_def)
    qed
  qed
qed

lemma ParseInt_decimal:
  "ParseInt val =
     (let ds = takeWhile is_digit (unsigned_part val); v = decimal ds;
          n = (if negative val then - v else v)
      in if 2 ^ 64 \<le> v then (if negative val then - (2 ^ 63) else 2 ^ 63 - 1, Some ErrRange)
         else if ds = [] \<or> ds \<noteq> unsigned_part val then (0, Some ErrSyntax)
         else if n < - (2 ^ 63) then (- (2 ^ 63), Some ErrRange)
         else if 2 ^ 63 \<le> n then (2 ^ 63 - 1, Some ErrRange)
         else (n, None))"
proof (cases "unsigned_part val = []")
  case True
  then show ?thesis
    by (auto simp: ParseInt_def ParseUint_def unsigned_part_def decimal_def Let_def)
next
  case False
  then have ne: "val \<noteq> []" by (auto simp: unsigned_part_def)
  have nn: "0 \<le> decimal (takeWhile is_digit (unsigned_part val))"
    by (rule decimal_nonneg)
  have pu: "ParseUint (unsigned_part val) =
     (let ds = takeWhile is_digit (unsigned_part val); v = decimal ds
      in if 2 ^ 64 \<le> v then (2 ^ 64 - 1, Some ErrRange)
         else if ds \<noteq> unsigned_part val then (0, Some ErrSyntax)
         else (v, None))"
    using False ParseUint_digits_decimal [of 0 "unsigned_part val"]
    by (simp add: ParseUint_def decimal_def)
  have pi: "ParseInt val =
      (case ParseUint (unsigned_part val) of
         (un, Some ErrSyntax) \<Rightarrow> (0, Some ErrSyntax)
       | (un, err) \<Rightarrow>
           if \<not> negative val \<and> 2 ^ 63 \<le> un then (2 ^ 63 - 1, Some ErrRange)
           else if negative val \<and> 2 ^ 63 < un then (- (2 ^ 63), Some ErrRange)
           else (if negative val then - un else un, None))"
    using ne
    by (auto simp: ParseInt_def unsigned_part_def negative_def Let_def
        split: prod.splits option.splits NumError.splits)
  have full: "takeWhile is_digit (unsigned_part val) \<noteq> []"
    if "takeWhile is_digit (unsigned_part val) = unsigned_part val"
    unfolding that by (rule False)
  from nn full show ?thesis
    unfolding pi pu by (auto simp: Let_def)
qed

text \<open>Values of \<open>Atoi\<close>, and a line that sets options of each kind.\<close>

lemma ParseArgs_int_example:
  "ParseArgs (runes
      ''-n=42 -neg=-12 -x=abc -big=9223372036854775808 -huge=99999999999999999999999999x rest'') =
     \<lparr>Options = [runes ''n'' \<mapsto> runes ''42'', runes ''neg'' \<mapsto> runes ''-12'',
                 runes ''x'' \<mapsto> runes ''abc'',
                 runes ''big'' \<mapsto> runes ''9223372036854775808'',
                 runes ''huge'' \<mapsto> runes ''99999999999999999999999999x''],
      Arguments = [runes ''rest'']\<rparr>"
proof -
  have "GetArgs (runes
      ''-n=42 -neg=-12 -x=abc -big=9223372036854775808 -huge=99999999999999999999999999x rest'') [] =
      map runes [''-n=42'', ''-neg=-12'', ''-x=abc'', ''-big=9223372036854775808'',
                 ''-huge=99999999999999999999999999x'', ''rest'']"
    by code_simp
  then show ?thesis
    unfolding ParseArgs_def
    by (simp add: runes_def HasPrefix_def TrimLeft_def)
qed

lemma Atoi_examples:
  "Atoi (runes ''42'') = (42, None)"
  "Atoi (runes ''-12'') = (- 12, None)"
  "Atoi (runes ''abc'') = (0, Some ErrSyntax)"
  "Atoi [] = (0, Some ErrSyntax)"
  "Atoi (runes ''-'') = (0, Some ErrSyntax)"
  "Atoi (runes ''9223372036854775808'') = (9223372036854775807, Some ErrRange)"
  "Atoi (runes ''-9223372036854775808'') = (- 9223372036854775808, None)"
  "Atoi (runes ''9223372036854775808x'') = (0, Some ErrSyntax)"
  "Atoi (runes ''18446744073709551615x'') = (0, Some ErrSyntax)"
  "Atoi (runes ''18446744073709551616x'') = (9223372036854775807, Some ErrRange)"
  "Atoi (runes ''99999999999999999999999999x'') = (9223372036854775807, Some ErrRange)"
  "Atoi (runes ''-99999999999999999999999999x'') = (- 9223372036854775808, Some ErrRange)"
  by code_simp+

subsection \<open>Bounded token collection\<close>

lemma getTokens_bounded_length:
  "0 < maxn \<Longrightarrow> getTokens maxn i tokens sc = ((toks, rest, err), sc')
   \<Longrightarrow> length toks \<le> length tokens + nat (maxn - i)"
proof (induction "nat (maxn - i)" arbitrary: i tokens sc)
  case 0
  then have "\<not> i < maxn" by simp
  with 0 show ?case
    by (subst (asm) getTokens.simps) simp
next
  case (Suc k)
  then have lt: "i < maxn" by simp
  obtain tok d e sc1 where nt: "NextToken sc = ((tok, d, e), sc1)"
    by (metis prod_cases3 surj_pair)
  show ?case
  proof (cases e)
    case None
    with Suc.prems lt nt
    have "getTokens maxn (i + 1) (tokens @ [tok]) sc1 = ((toks, rest, err), sc')"
      by (subst (asm) getTokens.simps) simp
    moreover from Suc.hyps(2) have "k = nat (maxn - (i + 1))" by simp
    ultimately have "length toks \<le> length (tokens @ [tok]) + nat (maxn - (i + 1))"
      using Suc.prems(1) by (intro Suc.hyps(1))
    with lt show ?thesis by simp
  next
    case (Some e')
    with Suc.prems lt nt have "toks = tokens"
      by (subst (asm) getTokens.simps) simp
    then show ?thesis by simp
  qed
qed

lemma GetArgsN_at_most:
  assumes "2 \<le> n"
  shows "length (GetArgsN line n options) \<le> nat n"
proof -
  obtain toks rest err sc' where
    gt: "getTokens (n - 1) 0 [] (getScanner line options) = ((toks, rest, err), sc')"
    by (metis prod_cases3 surj_pair)
  from assms have "0 < n - 1" by simp
  from getTokens_bounded_length [OF this gt] have "length toks \<le> nat (n - 1)" by simp
  moreover from assms have "Suc (nat (n - 1)) = nat n" by simp
  ultimately have "length toks < nat n" by simp
  with assms gt show ?thesis
    by (simp add: GetArgsN_def GetTokensN_def)
qed

lemma getTokens_rest_full:
  "0 < maxn \<Longrightarrow> getTokens maxn i tokens sc = ((toks, rest, err), sc') \<Longrightarrow> rest \<noteq> []
   \<Longrightarrow> length toks = length tokens + nat (maxn - i)"
proof (induction "nat (maxn - i)" arbitrary: i tokens sc)
  case 0
  then have "\<not> i < maxn" by simp
  with 0 show ?case
    by (subst (asm) getTokens.simps) simp
next
  case (Suc k)
  then have lt: "i < maxn" by simp
  obtain tok d e sc1 where nt: "NextToken sc = ((tok, d, e), sc1)"
    by (metis prod_cases3 surj_pair)
  show ?case
  proof (cases e)
    case None
    with Suc.prems lt nt
    have "getTokens maxn (i + 1) (tokens @ [tok]) sc1 = ((toks, rest, err), sc')"
      by (subst (asm) getTokens.simps) simp
    moreover from Suc.hyps(2) have "k = nat (maxn - (i + 1))" by simp
    ultimately have "length toks = length (tokens @ [tok]) + nat (maxn - (i + 1))"
      using Suc.prems(1,3) by (intro Suc.hyps(1))
    with lt show ?thesis by simp
  next
    case (Some e')
    with Suc.prems lt nt have "rest = []"
      by (subst (asm) getTokens.simps) simp
    with Suc.prems show ?thesis by simp
  qed
qed

lemma getTokens_all_acc:
  "fst (fst (getTokens 0 i tokens sc)) = tokens @ fst (fst (getTokens 0 j [] sc))"
proof (induction "length (rd sc)" arbitrary: sc i j tokens rule: less_induct)
  case less
  obtain tok d e sc1 where nt: "NextToken sc = ((tok, d, e), sc1)"
    by (metis prod_cases3 surj_pair)
  show ?case
  proof (cases e)
    case None
    with nt have "length (rd sc1) < length (rd sc)"
      by (auto dest: NextToken_consumes)
    from less.hyps [OF this]
    have "fst (fst (getTokens 0 (i + 1) (tokens @ [tok]) sc1))
        = (tokens @ [tok]) @ fst (fst (getTokens 0 0 [] sc1))"
      and "fst (fst (getTokens 0 (j + 1) ([] @ [tok]) sc1))
        = ([] @ [tok]) @ fst (fst (getTokens 0 0 [] sc1))"
      by blast+
    with nt None show ?thesis
      by (subst getTokens.simps, subst (2) getTokens.simps) simp
  next
    case (Some e')
    with nt show ?thesis
      by (subst getTokens.simps, subst (2) getTokens.simps) simp
  qed
qed

lemma getTokens_prefix:
  "0 < maxn \<Longrightarrow> fst (fst (getTokens maxn i tokens sc))
     = tokens @ take (nat (maxn - i)) (fst (fst (getTokens 0 j [] sc)))"
proof (induction "nat (maxn - i)" arbitrary: i j tokens sc)
  case 0
  then have "\<not> i < maxn" by simp
  with 0 show ?case
    by (subst getTokens.simps) simp
next
  case (Suc k)
  then have lt: "i < maxn" by simp
  obtain tok d e sc1 where nt: "NextToken sc = ((tok, d, e), sc1)"
    by (metis prod_cases3 surj_pair)
  show ?case
  proof (cases e)
    case None
    from Suc.hyps(2) have k: "k = nat (maxn - (i + 1))" by simp
    have "fst (fst (getTokens maxn (i + 1) (tokens @ [tok]) sc1))
        = (tokens @ [tok]) @ take (nat (maxn - (i + 1))) (fst (fst (getTokens 0 (j + 1) [] sc1)))"
      using k Suc.prems by (intro Suc.hyps(1))
    moreover have "fst (fst (getTokens 0 j [] sc))
        = tok # fst (fst (getTokens 0 (j + 1) [] sc1))"
      using nt None getTokens_all_acc [of "j + 1" "[tok]" sc1 "j + 1"]
      by (subst getTokens.simps) simp
    moreover from Suc.hyps(2) k have "nat (maxn - i) = Suc (nat (maxn - (i + 1)))" by simp
    ultimately show ?thesis
      using nt None lt Suc.prems
      by (subst getTokens.simps) simp
  next
    case (Some e')
    with nt lt Suc.prems show ?thesis
      by (subst getTokens.simps, subst (2) getTokens.simps) simp
  qed
qed

lemma GetArgsN_from_two:
  assumes "2 \<le> n"
  shows "length (GetArgsN line n options) \<le> nat n
    \<and> take (nat (n - 1)) (GetArgsN line n options) = take (nat (n - 1)) (GetArgs line options)"
proof -
  let ?sc = "getScanner line options"
  obtain toks rest err sc' where
    gt: "getTokens (n - 1) 0 [] ?sc = ((toks, rest, err), sc')"
    by (metis prod_cases3 surj_pair)
  from assms have pos: "0 < n - 1" by simp
  from getTokens_prefix [OF pos, of 0 "[]" ?sc 0] gt
  have toks: "toks = take (nat (n - 1)) (GetArgs line options)"
    by (simp add: GetArgs_def GetTokensN_def)
  have full: "length toks = nat (n - 1)" if "rest \<noteq> []"
    using getTokens_rest_full [OF pos gt that] by simp
  have h: "take (nat (n - 1)) (if rest \<noteq> [] then toks @ [rest] else toks) = toks"
    using full toks by auto
  from gt assms have g: "GetArgsN line n options = (if rest \<noteq> [] then toks @ [rest] else toks)"
    by (simp add: GetArgsN_def GetTokensN_def)
  have "take (nat (n - 1)) (GetArgsN line n options) = toks"
    unfolding g by (rule h)
  then have "take (nat (n - 1)) (GetArgsN line n options)
      = take (nat (n - 1)) (GetArgs line options)"
    using toks by simp
  with GetArgsN_at_most [OF assms] show ?thesis by simp
qed

subsection \<open>Unquoted lines\<close>

lemma getTokens_tokens_from:
  "fst (fst (getTokens 0 i [] \<lparr>rd = cs, InfieldBrackets = ifb\<rparr>)) = tokens_from ifb init_state cs"
proof -
  obtain s d e rest where sc: "scan ifb init_state cs = ((s, d, e), rest)"
    by (metis prod_cases3 surj_pair)
  show ?thesis
  proof (cases e)
    case None
    with sc show ?thesis
      using getTokens_all_acc [of "i + 1" "[s]" "\<lparr>rd = rest, InfieldBrackets = ifb\<rparr>" 0]
      by (subst getTokens.simps) (simp add: tokens_from_def NextToken_def)
  next
    case (Some e')
    with sc show ?thesis
      by (subst getTokens.simps) (simp add: tokens_from_def NextToken_def)
  qed
qed

lemma tokens_from_Continue:
  "step ifb st c = Continue st' \<Longrightarrow> tokens_from ifb st (c # cs) = tokens_from ifb st' cs"
  by (simp add: tokens_from_def)

lemma tokens_from_Return:
  "step ifb st c = Return s d
   \<Longrightarrow> tokens_from ifb st (c # cs) = s # tokens_from ifb init_state cs"
  by (subst tokens_from_def) (simp add: getTokens_tokens_from)

lemma tokens_from_Nil:
  "tokens_from ifb st [] = (if buf st = [] then [] else [buf st])"
  by (subst tokens_from_def) (simp add: getTokens_all_Nil)

lemma unquoted_not_bracket: "unquoted c \<Longrightarrow> BRACKETS c = None"
  by (auto simp: unquoted_def SYMBOL_CHARS_def BRACKETS_def)

lemma step_escape_char:
  "\<not> escape st \<Longrightarrow> step ifb st ESCAPE_CHAR = Continue (st\<lparr>escape := True, first := False\<rparr>)"
  by (simp add: step_def)

lemma step_escaped:
  "escape st \<Longrightarrow> step ifb st c = Continue (st\<lparr>escape := False, buf := buf st @ [c]\<rparr>)"
  by (simp add: step_def)

lemma step_first_space:
  "first st \<Longrightarrow> \<not> escape st \<Longrightarrow> IsSpace c \<Longrightarrow> step ifb st c = Continue st"
  by (simp add: step_def IsSpace_not_special)

lemma step_unquoted:
  assumes "unquoted c" "c \<noteq> ESCAPE_CHAR" "\<not> IsSpace c" "\<not> escape st"
    "quote st = NO_QUOTE" "brackets st = []"
  shows "step ifb st c = Continue (st\<lparr>first := False, buf := buf st @ [c]\<rparr>)"
  using assms unquoted_not_bracket [OF assms(1)]
  by (cases st) (auto simp: step_def ordinary_def Let_def unquoted_def)

lemma step_space_ends:
  assumes "IsSpace c" "\<not> first st" "\<not> escape st" "quote st = NO_QUOTE" "brackets st = []"
  shows "step ifb st c = Return (buf st) c"
  using assms by (simp add: step_def ordinary_def IsSpace_not_special)

lemma fields_unescape_Cons:
  "c \<noteq> ESCAPE_CHAR \<Longrightarrow> unescape (c # cs) = (False, c) # unescape cs"
  by (cases cs) simp_all

lemma unescape_escaped: "unescape (ESCAPE_CHAR # c # cs) = (True, c) # unescape cs"
  by simp

text \<open>
  The scanner against the specification's splitting, from any state of an unquoted token:
  a backslash already read and still pending counts as the first rune to resolve.
\<close>

lemma tokens_from_fields:
  assumes "\<forall>c\<in>set cs. unquoted c"
    and "quote st = NO_QUOTE" and "brackets st = []"
    and "first st \<longrightarrow> buf st = [] \<and> \<not> escape st"
    and "\<not> first st \<and> \<not> escape st \<longrightarrow> buf st \<noteq> []"
  shows "tokens_from ifb st cs
    = fields (buf st) (unescape ((if escape st then [ESCAPE_CHAR] else []) @ cs))"
  using assms
proof (induction cs arbitrary: st)
  case Nil
  then show ?case
    by (auto simp: tokens_from_Nil)
next
  case (Cons c cs)
  from Cons.prems(1) have uc: "unquoted c" and ucs: "\<forall>c\<in>set cs. unquoted c"
    by simp_all
  show ?case
  proof (cases "escape st")
    case True
    let ?st' = "st\<lparr>escape := False, buf := buf st @ [c]\<rparr>"
    from True Cons.prems have nf: "\<not> first st" by auto
    have "tokens_from ifb st (c # cs) = tokens_from ifb ?st' cs"
      using True by (intro tokens_from_Continue step_escaped)
    also have "\<dots> = fields (buf ?st') (unescape ((if escape ?st' then [ESCAPE_CHAR] else []) @ cs))"
      using ucs Cons.prems nf by (intro Cons.IH) simp_all
    finally show ?thesis using True by simp
  next
    case ne: False
    show ?thesis
    proof (cases "c = ESCAPE_CHAR")
      case True
      let ?st' = "st\<lparr>escape := True, first := False\<rparr>"
      have "tokens_from ifb st (c # cs) = tokens_from ifb ?st' cs"
        using ne True by (auto intro!: tokens_from_Continue step_escape_char)
      also have "\<dots> = fields (buf ?st') (unescape ((if escape ?st' then [ESCAPE_CHAR] else []) @ cs))"
        using ucs Cons.prems by (intro Cons.IH) simp_all
      finally show ?thesis using ne True by simp
    next
      case nesc: False
      show ?thesis
      proof (cases "IsSpace c")
        case sp: True
        show ?thesis
        proof (cases "first st")
          case True
          with Cons.prems have be: "buf st = []" by simp
          have "tokens_from ifb st (c # cs) = tokens_from ifb st cs"
            using True ne sp by (intro tokens_from_Continue step_first_space)
          also have "\<dots> = fields (buf st) (unescape ((if escape st then [ESCAPE_CHAR] else []) @ cs))"
            using ucs Cons.prems by (intro Cons.IH)
          finally show ?thesis
            using ne nesc sp be by (simp add: fields_unescape_Cons)
        next
          case False
          with Cons.prems ne have bn: "buf st \<noteq> []" by simp
          have "step ifb st c = Return (buf st) c"
            using sp False ne Cons.prems by (intro step_space_ends) simp_all
          then have "tokens_from ifb st (c # cs) = buf st # tokens_from ifb init_state cs"
            by (rule tokens_from_Return)
          also have "tokens_from ifb init_state cs
              = fields (buf init_state)
                  (unescape ((if escape init_state then [ESCAPE_CHAR] else []) @ cs))"
            using ucs by (intro Cons.IH) (simp_all add: init_state_def)
          finally show ?thesis
            using ne nesc sp bn by (simp add: fields_unescape_Cons init_state_def)
        qed
      next
        case nsp: False
        let ?st' = "st\<lparr>first := False, buf := buf st @ [c]\<rparr>"
        have "tokens_from ifb st (c # cs) = tokens_from ifb ?st' cs"
          using uc nesc nsp ne Cons.prems by (intro tokens_from_Continue step_unquoted)
        also have "\<dots> = fields (buf ?st') (unescape ((if escape ?st' then [ESCAPE_CHAR] else []) @ cs))"
          using ucs Cons.prems by (intro Cons.IH) simp_all
        finally show ?thesis
          using ne nesc nsp by (simp add: fields_unescape_Cons)
      qed
    qed
  qed
qed

text \<open>
  On a line with no quote, no symbol character (so no opening bracket) and no U+FFFD, the
  tokens are the fields of the line split at unescaped white space, with and without
  \<open>InfieldBrackets\<close>.  Closing brackets may occur: they are ordinary runes there.
\<close>

lemma GetArgs_split_escaped:
  assumes "\<forall>c\<in>set line. unquoted c"
  shows "GetArgs line [] = split_escaped line"
    and "GetArgs line [InfieldBrackets_option] = split_escaped line"
  using tokens_from_fields [OF assms, of init_state]
  by (simp_all add: GetArgs_def GetTokensN_def getScanner_Nil getScanner_Infield
      getTokens_tokens_from split_escaped_def) (simp_all add: init_state_def)

subsection \<open>Bracketed regions\<close>

lemma BRACKETS_cases:
  "BRACKETS opn = Some cl \<Longrightarrow> (opn = 123 \<and> cl = 125) \<or> (opn = 91 \<and> cl = 93) \<or> (opn = 40 \<and> cl = 41)"
  by (auto simp: BRACKETS_def split: if_splits)

lemma closer_not_special:
  assumes "BRACKETS opn = Some cl"
  shows "cl \<notin> set QUOTE_CHARS" "BRACKETS cl = None" "cl \<noteq> ESCAPE_CHAR"
  using BRACKETS_cases [OF assms]
  by (auto simp: QUOTE_CHARS_def BRACKETS_def ESCAPE_CHAR_def)

lemma opener_not_special:
  assumes "BRACKETS opn = Some cl"
  shows "opn \<notin> set QUOTE_CHARS" "opn \<noteq> ESCAPE_CHAR" "\<not> IsSpace opn"
    "BRACKETS opn' = Some cl' \<Longrightarrow> opn \<noteq> cl'"
  using BRACKETS_cases [OF assms] BRACKETS_cases [of opn' cl']
  by (auto simp: QUOTE_CHARS_def ESCAPE_CHAR_def IsSpace_def)

lemma quote_not_special:
  assumes "q \<in> set QUOTE_CHARS"
  shows "q \<noteq> NO_QUOTE" "q \<noteq> ESCAPE_CHAR" "BRACKETS opn = Some cl \<Longrightarrow> q \<noteq> cl"
  using assms BRACKETS_cases [of opn cl]
  by (auto simp: QUOTE_CHARS_def NO_QUOTE_def ESCAPE_CHAR_def)

text \<open>Inside brackets and inside a quote, up to the closing quote.\<close>

lemma scan_quoted_in_brackets:
  assumes "q \<notin> set body" "ESCAPE_CHAR \<notin> set body" "q \<in> set QUOTE_CHARS" "stack \<noteq> []"
  shows "scan ifb \<lparr>buf = b, first = False, escape = False, quote = q, brackets = stack,
                   delim = d\<rparr> (body @ q # rest)
       = scan ifb \<lparr>buf = b @ body @ [q], first = False, escape = False, quote = NO_QUOTE,
                   brackets = stack, delim = d\<rparr> rest"
  using assms
proof (induction body arbitrary: b)
  case Nil
  then show ?case
    by (simp add: step_def ordinary_def Let_def quote_not_special)
next
  case (Cons c body)
  then have "scan ifb \<lparr>buf = b @ [c], first = False, escape = False, quote = q,
        brackets = stack, delim = d\<rparr> (body @ q # rest)
      = scan ifb \<lparr>buf = (b @ [c]) @ body @ [q], first = False, escape = False,
        quote = NO_QUOTE, brackets = stack, delim = d\<rparr> rest"
    by (intro Cons.IH) simp_all
  with Cons.prems show ?case
    by (simp add: step_def ordinary_def Let_def quote_not_special)
qed

lemma scan_items:
  assumes "items cl body"
  shows "BRACKETS opn = Some cl \<Longrightarrow>
    scan ifb \<lparr>buf = b, first = False, escape = False, quote = NO_QUOTE,
              brackets = stack @ [cl], delim = d\<rparr> (body @ rest)
    = scan ifb \<lparr>buf = b @ body, first = False, escape = False, quote = NO_QUOTE,
              brackets = stack @ [cl], delim = d\<rparr> rest"
  using assms
proof (induction cl body arbitrary: b stack rest opn rule: items.induct)
  case (Nil cl)
  then show ?case by simp
next
  case (Rune c cl xs)
  have "scan ifb \<lparr>buf = b @ [c], first = False, escape = False, quote = NO_QUOTE,
        brackets = stack @ [cl], delim = d\<rparr> (xs @ rest)
      = scan ifb \<lparr>buf = (b @ [c]) @ xs, first = False, escape = False, quote = NO_QUOTE,
        brackets = stack @ [cl], delim = d\<rparr> rest"
    using Rune.prems by (rule Rune.IH)
  with Rune.hyps show ?case
    by (simp add: step_def ordinary_def Let_def butlast_append last_append)
next
  case (Quoted q body cl xs)
  have "scan ifb \<lparr>buf = b @ [q], first = False, escape = False, quote = q,
        brackets = stack @ [cl], delim = d\<rparr> (body @ q # xs @ rest)
      = scan ifb \<lparr>buf = (b @ [q]) @ body @ [q], first = False, escape = False,
        quote = NO_QUOTE, brackets = stack @ [cl], delim = d\<rparr> (xs @ rest)"
    using Quoted.hyps by (intro scan_quoted_in_brackets) simp_all
  also have "\<dots> = scan ifb \<lparr>buf = ((b @ [q]) @ body @ [q]) @ xs, first = False,
        escape = False, quote = NO_QUOTE, brackets = stack @ [cl], delim = d\<rparr> rest"
    using Quoted.prems by (rule Quoted.IH)
  finally show ?case
    using Quoted.hyps(1) Quoted.prems
    by (simp add: step_def ordinary_def Let_def quote_not_special)
next
  case (Nested opn' cl' body cl xs)
  have "scan ifb \<lparr>buf = b @ [opn'], first = False, escape = False, quote = NO_QUOTE,
        brackets = (stack @ [cl]) @ [cl'], delim = d\<rparr> (body @ cl' # xs @ rest)
      = scan ifb \<lparr>buf = (b @ [opn']) @ body, first = False, escape = False,
        quote = NO_QUOTE, brackets = (stack @ [cl]) @ [cl'], delim = d\<rparr> (cl' # xs @ rest)"
    using Nested.hyps(1) by (rule Nested.IH(1))
  also have "\<dots> = scan ifb \<lparr>buf = ((b @ [opn']) @ body) @ [cl'], first = False,
        escape = False, quote = NO_QUOTE, brackets = stack @ [cl], delim = d\<rparr> (xs @ rest)"
    using closer_not_special [OF Nested.hyps(1)]
    by (simp add: step_def ordinary_def Let_def butlast_append last_append)
  also have "\<dots> = scan ifb \<lparr>buf = (((b @ [opn']) @ body) @ [cl']) @ xs, first = False,
        escape = False, quote = NO_QUOTE, brackets = stack @ [cl], delim = d\<rparr> rest"
    using Nested.prems by (rule Nested.IH(2))
  finally show ?case
    using opener_not_special [OF Nested.hyps(1)] Nested.hyps(1) Nested.prems
    by (simp add: step_def ordinary_def Let_def butlast_append last_append)
qed

lemma scan_region:
  assumes "BRACKETS opn = Some cl" "items cl body"
  shows "scan ifb init_state (opn # body @ cl # rest) = ((opn # body @ [cl], opn, None), rest)"
proof -
  have "scan ifb init_state (opn # body @ cl # rest)
      = scan ifb \<lparr>buf = [opn], first = False, escape = False, quote = NO_QUOTE,
          brackets = [] @ [cl], delim = opn\<rparr> (body @ cl # rest)"
    using assms(1) opener_not_special [OF assms(1)]
    by (simp add: step_def init_state_def Let_def)
  also have "\<dots> = scan ifb \<lparr>buf = [opn] @ body, first = False, escape = False,
          quote = NO_QUOTE, brackets = [] @ [cl], delim = opn\<rparr> (cl # rest)"
    using assms by (intro scan_items)
  also have "\<dots> = ((opn # body @ [cl], opn, None), rest)"
    using closer_not_special [OF assms(1)]
    by (simp add: step_def ordinary_def Let_def butlast_append last_append)
  finally show ?thesis .
qed

text \<open>The region that reads: open brace, \<open>a\<close> and a close brace in double quotes, colon, \<open>1\<close> in square brackets, close brace.\<close>

lemma region_example: "region [123, 34, 97, 125, 34, 58, 91, 49, 93, 125]"
proof -
  have i3: "items 93 [49]"
    using items.Rune [of 49 93 "[]"] items.Nil [of 93]
    by (simp add: QUOTE_CHARS_def BRACKETS_def ESCAPE_CHAR_def)
  have i2: "items 125 [91, 49, 93]"
    using items.Nested [of 91 93 "[49]" 125 "[]"] i3 items.Nil [of 125]
    by (simp add: BRACKETS_def)
  have i1: "items 125 [58, 91, 49, 93]"
    using items.Rune [of 58 125 "[91, 49, 93]"] i2
    by (simp add: QUOTE_CHARS_def BRACKETS_def ESCAPE_CHAR_def)
  have i0: "items 125 [34, 97, 125, 34, 58, 91, 49, 93]"
    using items.Quoted [of 34 "[97, 125]" 125 "[58, 91, 49, 93]"] i1
    by (simp add: QUOTE_CHARS_def ESCAPE_CHAR_def)
  have "BRACKETS 123 = Some 125" by (simp add: BRACKETS_def)
  with i0 show ?thesis
    unfolding region_def by (intro exI [of _ 123] exI [of _ 125] exI [of _ "[34, 97, 125, 34, 58, 91, 49, 93]"]) simp
qed

subsection \<open>A token that the end of the input ends\<close>

lemma run_scan: "run ifb st cs = Some st' \<Longrightarrow> scan ifb st (cs @ rest) = scan ifb st' rest"
  by (induction cs arbitrary: st) (auto split: outcome.splits)

text \<open>
  The delimiter variable is assigned in one place, where the token begins with an opening
  bracket; once the token has begun it does not change.
\<close>

lemma step_begun_delim:
  assumes "\<not> first st" "step ifb st c = Continue st'"
  shows "\<not> first st' \<and> delim st' = delim st"
  using assms
  by (auto simp: step_def ordinary_def Let_def split: if_splits option.splits)

lemma run_begun_delim:
  "\<not> first st \<Longrightarrow> run ifb st cs = Some st' \<Longrightarrow> delim st' = delim st"
proof (induction cs arbitrary: st)
  case Nil
  then show ?case by simp
next
  case (Cons c cs)
  then show ?case
    by (auto split: outcome.splits dest: step_begun_delim)
qed

lemma step_init_delim:
  assumes "\<not> IsSpace c" "step ifb init_state c = Continue st'"
  shows "\<not> first st' \<and> delim st' = (if BRACKETS c = None then 0 else c)"
  using assms
  by (auto simp: step_def ordinary_def init_state_def Let_def
      split: if_splits option.splits dest: opener_not_special)

lemma run_init_delim:
  "run ifb init_state cs = Some st \<Longrightarrow>
   delim st = (case dropWhile IsSpace cs of [] \<Rightarrow> 0
               | c # cs' \<Rightarrow> if BRACKETS c = None then 0 else c)"
proof (induction cs)
  case Nil
  then show ?case by (auto simp: init_state_def)
next
  case (Cons c cs)
  show ?case
  proof (cases "IsSpace c")
    case True
    with Cons show ?thesis
      by (simp add: step_init_space)
  next
    case False
    from Cons.prems obtain st1 where s1: "step ifb init_state c = Continue st1"
      and r: "run ifb st1 cs = Some st"
      by (auto split: outcome.splits)
    from step_init_delim [OF False s1] run_begun_delim [OF _ r] False
    show ?thesis by simp
  qed
qed

lemma NextToken_end_of_input:
  assumes "run ifb init_state cs = Some st" "buf st \<noteq> []"
  shows "NextToken \<lparr>rd = cs, InfieldBrackets = ifb\<rparr>
           = ((buf st, delim st, None), \<lparr>rd = [], InfieldBrackets = ifb\<rparr>)"
  using run_scan [OF assms(1), of "[]"] assms(2)
  by (simp add: NextToken_def)

text \<open>
  The end-of-stream contract of \<open>NextToken\<close>, for every scanner:
  \<^item> when only white space is left unread (or nothing), the call returns the empty token
    with \<open>io.EOF\<close> and no delimiter;
  \<^item> a call that returns an error returns \<open>io.EOF\<close>, the empty token, no delimiter, and has
    read the whole input;
  \<^item> the empty token with no error is returned only with a delimiter that was read (a quote
    character, or U+FFFD), never for the end of the stream;
  \<^item> draining the scanner (\<open>GetTokens\<close>, a total function) ends with \<open>io.EOF\<close> and the
    input read, and the call after it returns the empty token with \<open>io.EOF\<close>;
  \<^item> a last token that ends because the input ends (the loop has read all of \<open>cs\<close> and the
    buffer is not empty) is returned with no error, and the call after it returns the empty
    token with \<open>io.EOF\<close>; its delimiter is the opening bracket when the first rune of the
    line that is no white space is one, and 0 in every other case;
  \<^item> in particular a last word of plain runes is returned with delimiter 0.
\<close>

lemma end_of_stream_contract:
  "((\<forall>w\<in>set (rd sc). IsSpace w) \<longrightarrow> NextToken sc = (([], 0, Some EOF), sc\<lparr>rd := []\<rparr>))
   \<and> (NextToken sc = ((s, d, Some e), sc') \<longrightarrow> s = [] \<and> d = 0 \<and> e = EOF \<and> rd sc' = [])
   \<and> (NextToken sc = (([], d, None), sc') \<longrightarrow> d \<noteq> 0 \<and> (d \<in> set QUOTE_CHARS \<or> d = NO_QUOTE))
   \<and> snd (fst (GetTokens sc)) = Some EOF
   \<and> rd (snd (GetTokens sc)) = []
   \<and> NextToken (snd (GetTokens sc)) = (([], 0, Some EOF), snd (GetTokens sc))
   \<and> (run ifb init_state cs = Some st \<and> buf st \<noteq> [] \<longrightarrow>
        NextToken \<lparr>rd = cs, InfieldBrackets = ifb\<rparr>
          = ((buf st, delim st, None), \<lparr>rd = [], InfieldBrackets = ifb\<rparr>)
        \<and> NextToken \<lparr>rd = [], InfieldBrackets = ifb\<rparr>
          = (([], 0, Some EOF), \<lparr>rd = [], InfieldBrackets = ifb\<rparr>)
        \<and> delim st = (case dropWhile IsSpace cs of [] \<Rightarrow> 0
                       | c # cs' \<Rightarrow> if BRACKETS c = None then 0 else c))
   \<and> ((\<forall>w\<in>set ws. IsSpace w) \<and> (\<forall>c\<in>set word. plain c) \<and> word \<noteq> [] \<longrightarrow>
        NextToken \<lparr>rd = ws @ word, InfieldBrackets = ifb\<rparr>
          = ((word, 0, None), \<lparr>rd = [], InfieldBrackets = ifb\<rparr>))"
proof -
  have A: "NextToken sc = (([], 0, Some EOF), sc\<lparr>rd := []\<rparr>)" if "\<forall>w\<in>set (rd sc). IsSpace w"
    using scan_skip_spaces [OF that, of "InfieldBrackets sc" "[]"]
    by (simp add: NextToken_def init_state_def)
  have B: "s = [] \<and> d = 0 \<and> e = EOF \<and> rd sc' = []" if "NextToken sc = ((s, d, Some e), sc')"
    using that by (rule NextToken_error)
  have C: "d \<noteq> 0 \<and> (d \<in> set QUOTE_CHARS \<or> d = NO_QUOTE)"
    if nt: "NextToken sc = (([], d, None), sc')"
  proof -
    from nt have "scan (InfieldBrackets sc) init_state (rd sc) = (([], d, None), rd sc')"
      by (auto simp: NextToken_def split: prod.splits)
    from scan_empty_token [OF scanning_init this]
    show ?thesis by (auto simp: QUOTE_CHARS_def NO_QUOTE_def)
  qed
  obtain toks rest err sc1 where gt: "getTokens 0 0 [] sc = ((toks, rest, err), sc1)"
    by (metis prod_cases3 surj_pair)
  from getTokens_all [OF gt] have D: "err = Some EOF" "rd sc1 = []" by simp_all
  from gt have G: "GetTokens sc = ((toks, err), sc1)"
    by (simp add: GetTokens_def)
  have E: "NextToken \<lparr>rd = cs, InfieldBrackets = ifb\<rparr>
          = ((buf st, delim st, None), \<lparr>rd = [], InfieldBrackets = ifb\<rparr>)
        \<and> delim st = (case dropWhile IsSpace cs of [] \<Rightarrow> 0
                       | c # cs' \<Rightarrow> if BRACKETS c = None then 0 else c)"
    if "run ifb init_state cs = Some st" "buf st \<noteq> []"
    using NextToken_end_of_input [OF that] run_init_delim [OF that(1)] by simp
  have F: "NextToken \<lparr>rd = ws @ word, InfieldBrackets = ifb\<rparr>
          = ((word, 0, None), \<lparr>rd = [], InfieldBrackets = ifb\<rparr>)"
    if "\<forall>w\<in>set ws. IsSpace w" "\<forall>c\<in>set word. plain c" "word \<noteq> []"
    using that scan_plain_word [of word init_state ifb]
    by (simp add: NextToken_def scan_skip_spaces) (simp add: init_state_def)
  show ?thesis
    using A B C D E F by (simp add: G NextToken_Nil)
qed

text \<open>The contract at work on lines of each kind.\<close>

lemma end_of_stream_contract_example:
  "list_all IsSpace (runes ''  '')
   \<and> NextToken \<lparr>rd = runes ''  '', InfieldBrackets = False\<rparr>
       = (([], 0, Some EOF), \<lparr>rd = [], InfieldBrackets = False\<rparr>)
   \<and> NextToken \<lparr>rd = [34, 34], InfieldBrackets = False\<rparr>
       = (([], 34, None), \<lparr>rd = [], InfieldBrackets = False\<rparr>)
   \<and> (34::int) \<noteq> 0 \<and> 34 \<in> set QUOTE_CHARS
   \<and> GetTokens \<lparr>rd = runes ''a b'', InfieldBrackets = False\<rparr>
       = (([runes ''a'', runes ''b''], Some EOF), \<lparr>rd = [], InfieldBrackets = False\<rparr>)
   \<and> run False init_state (runes ''{abc'')
       = Some \<lparr>buf = runes ''{abc'', first = False, escape = False, quote = NO_QUOTE,
                brackets = [125], delim = 123\<rparr>
   \<and> NextToken \<lparr>rd = runes ''{abc'', InfieldBrackets = False\<rparr>
       = ((runes ''{abc'', 123, None), \<lparr>rd = [], InfieldBrackets = False\<rparr>)
   \<and> list_all plain (runes ''abc'') \<and> runes ''abc'' \<noteq> []
   \<and> NextToken \<lparr>rd = runes ''  abc'', InfieldBrackets = False\<rparr>
       = ((runes ''abc'', 0, None), \<lparr>rd = [], InfieldBrackets = False\<rparr>)
   \<and> NextToken \<lparr>rd = [], InfieldBrackets = False\<rparr>
       = (([], 0, Some EOF), \<lparr>rd = [], InfieldBrackets = False\<rparr>)"
proof -
  let ?S = "\<lparr>rd = runes ''  '', InfieldBrackets = False\<rparr>"
  let ?E = "\<lparr>rd = [], InfieldBrackets = False\<rparr>"
  let ?Q = "\<lparr>rd = [34, 34], InfieldBrackets = False\<rparr>"
  let ?B = "\<lparr>buf = runes ''{abc'', first = False, escape = False, quote = NO_QUOTE,
             brackets = [125], delim = 123\<rparr>"
  have sp: "list_all IsSpace (runes ''  '')" by code_simp
  then have sp': "\<forall>w\<in>set (rd ?S). IsSpace w" by (simp add: list_all_iff)
  have pl: "list_all plain (runes ''abc'')" by code_simp
  then have pl': "\<forall>c\<in>set (runes ''abc''). plain c" by (simp add: list_all_iff)
  have ne: "runes ''abc'' \<noteq> []" by (simp add: runes_def)
  have a: "NextToken ?S = (([], 0, Some EOF), ?E)"
    using end_of_stream_contract [where sc = ?S] sp' by simp
  have q: "NextToken ?Q = (([], 34, None), ?E)" by code_simp
  have c: "(34::int) \<noteq> 0 \<and> 34 \<in> set QUOTE_CHARS"
    using end_of_stream_contract [where sc = ?Q and d = 34 and sc' = ?E] q
    by (simp add: NO_QUOTE_def)
  have g: "GetTokens \<lparr>rd = runes ''a b'', InfieldBrackets = False\<rparr>
       = (([runes ''a'', runes ''b''], Some EOF), ?E)" by code_simp
  have r: "run False init_state (runes ''{abc'') = Some ?B" by code_simp
  have bn: "buf ?B \<noteq> []" by (simp add: runes_def)
  have b: "NextToken \<lparr>rd = runes ''{abc'', InfieldBrackets = False\<rparr>
       = ((runes ''{abc'', 123, None), ?E) \<and> NextToken ?E = (([], 0, Some EOF), ?E)"
    using end_of_stream_contract [where ifb = False and cs = "runes ''{abc''" and st = ?B] r bn
    by simp
  have e: "NextToken \<lparr>rd = runes ''  '' @ runes ''abc'', InfieldBrackets = False\<rparr>
       = ((runes ''abc'', 0, None), ?E)"
    using end_of_stream_contract [where ws = "runes ''  ''" and word = "runes ''abc''"
        and ifb = False] sp' pl' ne
    by simp
  have cat: "runes ''  '' @ runes ''abc'' = runes ''  abc''" by (simp add: runes_def)
  show ?thesis
    using sp a q c g r b pl ne e unfolding cat by blast
qed

section \<open>The claims\<close>

text \<open>
  Claim C1, as amended.  \<open>GetIntOption(name, def)\<close> returns \<open>def\<close> when the name is absent.
  When the name is present, the stored value is read as an optional sign followed by
  decimal digits, and \<open>def\<close> is not used:
  \<^item> if the value has that form (at least one digit, nothing after the digits) and its number
    is within the 64-bit signed range, the number is returned;
  \<^item> if it has that form and the number is out of the range, the nearest bound of the range
    is returned;
  \<^item> if it does not have that form, 0 is returned, except that when the digits right after
    the optional sign already denote a number above \<open>2^64 - 1\<close> the bound of the range on the
    side of the sign is returned, whatever follows those digits.

  The function returns an integer only, so that no error is surfaced.
\<close>

theorem GetIntOption_cases:
  "(Options a name = None \<longrightarrow> GetIntOption a name def = def)
   \<and> (Options a name = Some val \<longrightarrow>
        GetIntOption a name def =
          (let ds = takeWhile is_digit (unsigned_part val); v = decimal ds;
               n = (if negative val then - v else v)
           in if 2 ^ 64 \<le> v then (if negative val then - (2 ^ 63) else 2 ^ 63 - 1)
              else if ds = [] \<or> ds \<noteq> unsigned_part val then 0
              else if n < - (2 ^ 63) then - (2 ^ 63)
              else if 2 ^ 63 \<le> n then 2 ^ 63 - 1
              else n))"
  by (simp add: GetIntOption_def Atoi_eq_ParseInt ParseInt_decimal Let_def)

theorem GetIntOption_cases_witness:
  "Options (ParseArgs (runes
      ''-n=42 -neg=-12 -x=abc -big=9223372036854775808 -huge=99999999999999999999999999x rest''))
      (runes ''m'') = None
   \<and> GetIntOption (ParseArgs (runes
      ''-n=42 -neg=-12 -x=abc -big=9223372036854775808 -huge=99999999999999999999999999x rest''))
      (runes ''m'') 7 = 7
   \<and> Options (ParseArgs (runes
      ''-n=42 -neg=-12 -x=abc -big=9223372036854775808 -huge=99999999999999999999999999x rest''))
      (runes ''n'') = Some (runes ''42'')
   \<and> GetIntOption (ParseArgs (runes
      ''-n=42 -neg=-12 -x=abc -big=9223372036854775808 -huge=99999999999999999999999999x rest''))
      (runes ''n'') 7 = 42
   \<and> GetIntOption (ParseArgs (runes
      ''-n=42 -neg=-12 -x=abc -big=9223372036854775808 -huge=99999999999999999999999999x rest''))
      (runes ''neg'') 7 = - 12
   \<and> GetIntOption (ParseArgs (runes
      ''-n=42 -neg=-12 -x=abc -big=9223372036854775808 -huge=99999999999999999999999999x rest''))
      (runes ''x'') 7 = 0
   \<and> GetIntOption (ParseArgs (runes
      ''-n=42 -neg=-12 -x=abc -big=9223372036854775808 -huge=99999999999999999999999999x rest''))
      (runes ''big'') 7 = 9223372036854775807
   \<and> GetIntOption (ParseArgs (runes
      ''-n=42 -neg=-12 -x=abc -big=9223372036854775808 -huge=99999999999999999999999999x rest''))
      (runes ''huge'') 7 = 9223372036854775807"
proof -
  let ?a = "ParseArgs (runes
      ''-n=42 -neg=-12 -x=abc -big=9223372036854775808 -huge=99999999999999999999999999x rest'')"
  have m: "Options ?a (runes ''m'') = None"
    and n: "Options ?a (runes ''n'') = Some (runes ''42'')"
    and neg: "Options ?a (runes ''neg'') = Some (runes ''-12'')"
    and x: "Options ?a (runes ''x'') = Some (runes ''abc'')"
    and big: "Options ?a (runes ''big'') = Some (runes ''9223372036854775808'')"
    and huge: "Options ?a (runes ''huge'') = Some (runes ''99999999999999999999999999x'')"
    unfolding ParseArgs_int_example by (simp_all add: runes_def)
  note ev = runes_def is_digit_def decimal_def negative_def unsigned_part_def
  have 1: "GetIntOption ?a (runes ''m'') 7 = 7"
    using GetIntOption_cases [of ?a "runes ''m''" 7] m by simp
  have 2: "GetIntOption ?a (runes ''n'') 7 = 42"
    using GetIntOption_cases [of ?a "runes ''n''" 7 "runes ''42''"] n
    by (simp add: ev)
  have 3: "GetIntOption ?a (runes ''neg'') 7 = - 12"
    using GetIntOption_cases [of ?a "runes ''neg''" 7 "runes ''-12''"] neg
    by (simp add: ev)
  have 4: "GetIntOption ?a (runes ''x'') 7 = 0"
    using GetIntOption_cases [of ?a "runes ''x''" 7 "runes ''abc''"] x
    by (simp add: ev)
  have 5: "GetIntOption ?a (runes ''big'') 7 = 9223372036854775807"
    using GetIntOption_cases [of ?a "runes ''big''" 7 "runes ''9223372036854775808''"] big
    by (simp add: ev)
  have 6: "GetIntOption ?a (runes ''huge'') 7 = 9223372036854775807"
    using GetIntOption_cases [of ?a "runes ''huge''" 7 "runes ''99999999999999999999999999x''"]
      huge
    by (simp add: ev)
  show ?thesis
    by (intro conjI m n 1 2 3 4 5 6)
qed

text \<open>
  The claim as stated fails on a malformed value: with the option \<open>n\<close> set to \<open>abc\<close> and the
  default 7 the result is 0, not the default.
\<close>

theorem GetIntOption_malformed_not_default:
  "Options (ParseArgs (runes ''-n=abc'')) (runes ''n'') = Some (runes ''abc'')
   \<and> list_all (\<lambda>c. \<not> is_digit c) (runes ''abc'')
   \<and> GetIntOption (ParseArgs (runes ''-n=abc'')) (runes ''n'') 7 = 0
   \<and> GetIntOption (ParseArgs (runes ''-n=abc'')) (runes ''n'') 7 \<noteq> 7"
  by code_simp

text \<open>
  Claim C2.  \<open>GetArgsN(line, n)\<close> is documented to parse the line into at most \<open>n\<close> arguments:
  up to \<open>n - 1\<close> tokens and the trimmed rest of the line as the last element.  For \<open>n = 1\<close>
  the code decrements \<open>n\<close> to 0, which \<open>getTokens\<close> takes as no bound at all, so that every
  token of the line is returned: on \<open>a b c\<close> the result has three elements, the same as
  \<open>GetArgs\<close>, where the claim allows one.  (With \<open>n = 2\<close> the same line gives \<open>a\<close> and the
  rest \<open>b c\<close>; lemma \<open>GetArgsN_from_two\<close> shows the bound and the tokens from \<open>n = 2\<close> on.)
\<close>

theorem GetArgsN_one_returns_all:
  "GetArgsN (runes ''a b c'') 1 [] = [runes ''a'', runes ''b'', runes ''c'']
   \<and> \<not> length (GetArgsN (runes ''a b c'') 1 []) \<le> 1
   \<and> GetArgsN (runes ''a b c'') 2 [] = [runes ''a'', runes ''b c'']
   \<and> GetArgsN (runes ''a b c'') 1 [] = GetArgs (runes ''a b c'') []"
  by code_simp

text \<open>
  Claim C3.  On a line with no quote, bracket or symbol character the tokens should be the
  fields of the line split at white space, with the backslash honoured.  The code keeps the
  value U+FFFD in \<open>quote\<close> to mean that no quote is open, and compares every rune read with
  \<open>quote\<close>: a U+FFFD in the line (which is also what \<open>ReadRune\<close> gives for a byte that is not
  valid UTF-8) closes a quote that was never opened and ends the token.  The line
  \<open>a\<close>, U+FFFD, \<open>b\<close> has no quote, bracket, symbol character or white space, and is one field;
  the scanner returns the two tokens \<open>a\<close> and \<open>b\<close>, the first with U+FFFD as delimiter.
  (Lemma \<open>GetArgs_split_escaped\<close> shows the claim for every line without U+FFFD.)
\<close>

theorem replacement_char_splits_token:
  "list_all (\<lambda>c. c \<notin> set QUOTE_CHARS \<and> c \<notin> set SYMBOL_CHARS \<and> BRACKETS c = None
       \<and> c \<notin> Map.ran BRACKETS \<and> \<not> IsSpace c \<and> c \<noteq> ESCAPE_CHAR) [97, 65533, 98]
   \<and> split_escaped [97, 65533, 98] = [[97, 65533, 98]]
   \<and> GetArgs [97, 65533, 98] [] = [[97], [98]]
   \<and> GetArgs [97, 65533, 98] [InfieldBrackets_option] = [[97], [98]]
   \<and> NextToken (NewScannerString [97, 65533, 98])
       = (([97], 65533, None), \<lparr>rd = [98], InfieldBrackets = False\<rparr>)"
  by (simp add: BRACKETS_def ran_def) code_simp

text \<open>
  Claim C4.  Tokenizing the input that is \<open>abc\<close> between two double quotes (code point 34)
  yields the single token \<open>abc\<close>, the quotes removed; tokenizing the same input with a
  backslash (code point 92) before each of the two quotes yields the single token made of
  the quote, \<open>abc\<close> and the quote: the escaped quotes are kept and do not open a quoted
  token.  Both hold with and without \<open>InfieldBrackets\<close>.
\<close>

theorem quote_stripping_roundtrip:
  "GetArgs ([34] @ runes ''abc'' @ [34]) [] = [runes ''abc'']
   \<and> GetArgs ([34] @ runes ''abc'' @ [34]) [InfieldBrackets_option] = [runes ''abc'']
   \<and> GetArgs ([92, 34] @ runes ''abc'' @ [92, 34]) [] = [[34] @ runes ''abc'' @ [34]]
   \<and> GetArgs ([92, 34] @ runes ''abc'' @ [92, 34]) [InfieldBrackets_option]
       = [[34] @ runes ''abc'' @ [34]]"
  by code_simp

text \<open>
  Claim C5, as amended.  On a line that begins with a bracketed region (an opening bracket,
  nested quotes, nested brackets and other runes, the matching closing bracket) that holds
  no backslash, \<open>NextToken\<close> returns the whole region as one token, both delimiters
  included, with the opening bracket as delimiter value and no error, and leaves the rest
  of the line unread; a line that is such a region has this one token.  This holds with and
  without \<open>InfieldBrackets\<close>.
\<close>

theorem bracket_region_verbatim:
  assumes "region r"
  shows "NextToken \<lparr>rd = r @ rest, InfieldBrackets = ifb\<rparr>
           = ((r, hd r, None), \<lparr>rd = rest, InfieldBrackets = ifb\<rparr>)
       \<and> GetArgs r [] = [r]
       \<and> GetArgs r [InfieldBrackets_option] = [r]"
proof -
  from assms obtain opn cl body
    where b: "BRACKETS opn = Some cl" and i: "items cl body" and r: "r = opn # body @ [cl]"
    by (auto simp: region_def)
  have nt: "NextToken \<lparr>rd = r @ rest', InfieldBrackets = ifb'\<rparr>
           = ((r, hd r, None), \<lparr>rd = rest', InfieldBrackets = ifb'\<rparr>)" for rest' ifb'
    using scan_region [OF b i, of ifb' rest'] by (simp add: NextToken_def r)
  have all: "getTokens 0 0 [] \<lparr>rd = r, InfieldBrackets = ifb'\<rparr>
      = (([r], [], Some EOF), \<lparr>rd = [], InfieldBrackets = ifb'\<rparr>)" for ifb'
    using nt [of "[]" ifb']
    by (subst getTokens.simps) (simp add: getTokens_all_Nil)
  show ?thesis
    by (simp add: nt GetArgs_def GetTokensN_def all getScanner_Nil getScanner_Infield)
qed

theorem bracket_region_verbatim_witness:
  "region [123, 34, 97, 125, 34, 58, 91, 49, 93, 125]
   \<and> NextToken \<lparr>rd = [123, 34, 97, 125, 34, 58, 91, 49, 93, 125] @ runes '' x'',
                 InfieldBrackets = True\<rparr>
       = (([123, 34, 97, 125, 34, 58, 91, 49, 93, 125], 123, None),
          \<lparr>rd = runes '' x'', InfieldBrackets = True\<rparr>)
   \<and> GetArgs [123, 34, 97, 125, 34, 58, 91, 49, 93, 125] []
       = [[123, 34, 97, 125, 34, 58, 91, 49, 93, 125]]
   \<and> GetArgs [123, 34, 97, 125, 34, 58, 91, 49, 93, 125] [InfieldBrackets_option]
       = [[123, 34, 97, 125, 34, 58, 91, 49, 93, 125]]"
  using bracket_region_verbatim [OF region_example, of "runes '' x''" True] region_example
  by simp

text \<open>
  The claim as stated fails when the region holds a backslash.  The line that reads open
  brace, quote, \<open>a\<close>, backslash, quote, \<open>b\<close>, quote, colon, \<open>1\<close> in square brackets, close
  brace is read to its end as one token, but the token is not the text: the backslash is
  missing.
\<close>

theorem bracket_region_drops_backslash:
  "NextToken \<lparr>rd = [123, 34, 97, 92, 34, 98, 34, 58, 91, 49, 93, 125], InfieldBrackets = False\<rparr>
       = (([123, 34, 97, 34, 98, 34, 58, 91, 49, 93, 125], 123, None),
          \<lparr>rd = [], InfieldBrackets = False\<rparr>)
   \<and> GetArgs [123, 34, 97, 92, 34, 98, 34, 58, 91, 49, 93, 125] []
       = [[123, 34, 97, 34, 98, 34, 58, 91, 49, 93, 125]]
   \<and> GetArgs [123, 34, 97, 92, 34, 98, 34, 58, 91, 49, 93, 125] [InfieldBrackets_option]
       = [[123, 34, 97, 34, 98, 34, 58, 91, 49, 93, 125]]
   \<and> [123, 34, 97, 34, 98, 34, 58, 91, 49, 93, 125]
       \<noteq> [123, 34, 97, 92, 34, 98, 34, 58, 91, 49, 93, 125::int]"
  by code_simp

text \<open>
  Claim C6, as amended.  In a state that the loop of \<open>NextToken\<close> reaches with the bracket
  stack non-empty, every rune read is appended to the buffer, whether the loop goes round or
  returns the token, except a backslash that is not itself escaped: that one is read and
  not appended (it sets the escape flag, so that the next rune is appended as it is).
  The symbol branch that copies the rest of the line is never taken there.
\<close>

theorem inside_brackets_appends:
  assumes "run ifb init_state pre = Some st" and "brackets st \<noteq> []"
  shows "case step ifb st c of
           Continue st' \<Rightarrow>
             buf st' = (if c = ESCAPE_CHAR \<and> \<not> escape st then buf st else buf st @ [c])
         | Return s d \<Rightarrow> \<not> (c = ESCAPE_CHAR \<and> \<not> escape st) \<and> s = buf st @ [c]
         | ReturnRest b d \<Rightarrow> False"
proof -
  from assms(1) have "scanning st"
    by (rule scanning_run [OF scanning_init])
  with assms(2) have "\<not> first st"
    by (simp add: scanning_brackets)
  with assms(2) show ?thesis
    by (rule in_brackets_step)
qed

theorem inside_brackets_appends_witness:
  "run False init_state [123] = Some \<lparr>buf = [123], first = False, escape = False,
       quote = NO_QUOTE, brackets = [125], delim = 123\<rparr>
   \<and> brackets \<lparr>buf = [123], first = False, escape = False,
       quote = NO_QUOTE, brackets = [125], delim = 123\<rparr> \<noteq> []
   \<and> step False \<lparr>buf = [123], first = False, escape = False,
       quote = NO_QUOTE, brackets = [125], delim = 123\<rparr> 34
     = Continue \<lparr>buf = [123, 34], first = False, escape = False,
       quote = 34, brackets = [125], delim = 123\<rparr>
   \<and> buf \<lparr>buf = [123, 34], first = False, escape = False,
       quote = 34, brackets = [125], delim = 123\<rparr> = [123] @ [34]"
proof -
  let ?S = "\<lparr>buf = [123], first = False, escape = False,
       quote = NO_QUOTE, brackets = [125], delim = 123\<rparr>"
  let ?S' = "\<lparr>buf = [123, 34], first = False, escape = False,
       quote = 34, brackets = [125], delim = 123\<rparr>"
  have b: "brackets ?S \<noteq> []" by simp
  have s: "step False ?S 34 = Continue ?S'" by code_simp
  from inside_brackets_appends [OF run_open_brace b, of 34]
  have c: "buf ?S' = [123] @ [34]"
    unfolding s by (simp add: ESCAPE_CHAR_def)
  show ?thesis
    by (intro conjI run_open_brace b s c)
qed

text \<open>
  The claim as stated fails at a backslash: after the opening brace the stack is non-empty,
  and the backslash read next is not appended.
\<close>

theorem inside_brackets_drops_backslash:
  "run False init_state [123] = Some \<lparr>buf = [123], first = False, escape = False,
       quote = NO_QUOTE, brackets = [125], delim = 123\<rparr>
   \<and> brackets \<lparr>buf = [123], first = False, escape = False,
       quote = NO_QUOTE, brackets = [125], delim = 123\<rparr> \<noteq> []
   \<and> step False \<lparr>buf = [123], first = False, escape = False,
       quote = NO_QUOTE, brackets = [125], delim = 123\<rparr> 92
     = Continue \<lparr>buf = [123], first = False, escape = True,
       quote = NO_QUOTE, brackets = [125], delim = 123\<rparr>
   \<and> buf \<lparr>buf = [123], first = False, escape = True,
       quote = NO_QUOTE, brackets = [125], delim = 123\<rparr> \<noteq> [123] @ [92]"
  by code_simp

text \<open>
  Claim C7.  On a line whose first rune that is not a space is a symbol character other than
  an opening bracket (bar, greater, less, hash), \<open>NextToken\<close> returns one token, that rune
  followed by all the rest of the line, with no error and no delimiter, and leaves nothing
  unread; the next call returns the end of the stream, so that the line has exactly this
  one token, with and without \<open>InfieldBrackets\<close>.
\<close>

theorem symbol_short_circuit:
  assumes ws: "\<forall>w\<in>set ws. IsSpace w"
    and sym: "c \<in> set SYMBOL_CHARS" and nb: "BRACKETS c = None"
  shows "NextToken \<lparr>rd = ws @ c # rest, InfieldBrackets = ifb\<rparr>
           = ((c # rest, 0, None), \<lparr>rd = [], InfieldBrackets = ifb\<rparr>)
       \<and> NextToken \<lparr>rd = [], InfieldBrackets = ifb\<rparr>
           = (([], 0, Some EOF), \<lparr>rd = [], InfieldBrackets = ifb\<rparr>)
       \<and> GetArgs (ws @ c # rest) [] = [c # rest]
       \<and> GetArgs (ws @ c # rest) [InfieldBrackets_option] = [c # rest]"
proof -
  have first_call: "NextToken \<lparr>rd = ws @ c # rest, InfieldBrackets = b\<rparr>
      = ((c # rest, 0, None), \<lparr>rd = [], InfieldBrackets = b\<rparr>)" for b
    using ws by (simp add: NextToken_def scan_skip_spaces step_init_symbol [OF sym nb])
  have all: "getTokens 0 0 [] \<lparr>rd = ws @ c # rest, InfieldBrackets = b\<rparr>
      = (([c # rest], [], Some EOF), \<lparr>rd = [], InfieldBrackets = b\<rparr>)" for b
    by (subst getTokens.simps) (simp add: first_call getTokens_all_Nil)
  show ?thesis
    by (simp add: first_call NextToken_Nil GetArgs_def GetTokensN_def all
        getScanner_Nil getScanner_Infield)
qed

theorem symbol_short_circuit_witness:
  "list_all IsSpace (runes ''  '') \<and> 35 \<in> set SYMBOL_CHARS \<and> BRACKETS 35 = None
   \<and> NextToken \<lparr>rd = runes ''  #comment text'', InfieldBrackets = False\<rparr>
        = ((runes ''#comment text'', 0, None), \<lparr>rd = [], InfieldBrackets = False\<rparr>)
   \<and> NextToken \<lparr>rd = [], InfieldBrackets = False\<rparr>
        = (([], 0, Some EOF), \<lparr>rd = [], InfieldBrackets = False\<rparr>)
   \<and> GetArgs (runes ''  #comment text'') [] = [runes ''#comment text'']
   \<and> GetArgs (runes ''  #comment text'') [InfieldBrackets_option] = [runes ''#comment text'']"
  using symbol_short_circuit [of "runes ''  ''" "35" "runes ''comment text''" False]
  by (simp add: runes_def IsSpace_def SYMBOL_CHARS_def BRACKETS_def)

text \<open>
  Claim C8.  After all tokens have been drained, the next \<open>NextToken\<close> call returns the
  empty token with \<open>io.EOF\<close>, never the empty token with no error; a final token that no
  white space ends is returned with no error and no delimiter, as the comment on that
  return says (\<open>(token, 0, nil)\<close>).  The return gives the delimiter variable as it stands,
  and the variable was set where the token began with an opening bracket.  The line that
  is an open brace and \<open>abc\<close> is read to its end, no white space and no closing brace ends
  the token, and it is returned with no error and the delimiter 123, the brace, where the
  claim and the comment give 0; the call after it returns \<open>io.EOF\<close> as claimed.
  (Lemma \<open>end_of_stream_contract\<close> shows the rest of the claim for every scanner, and the
  delimiter 0 for every last token that does not begin with an opening bracket.)
\<close>

theorem last_token_bracket_delimiter:
  "NextToken \<lparr>rd = runes ''{abc'', InfieldBrackets = False\<rparr>
       = ((runes ''{abc'', 123, None), \<lparr>rd = [], InfieldBrackets = False\<rparr>)
   \<and> (123::int) \<noteq> 0
   \<and> list_all (\<lambda>c. \<not> IsSpace c) (runes ''{abc'')
   \<and> NextToken \<lparr>rd = [], InfieldBrackets = False\<rparr>
       = (([], 0, Some EOF), \<lparr>rd = [], InfieldBrackets = False\<rparr>)"
  by code_simp

text \<open>
  Claim C9.  \<open>ParseArgs\<close> on the line
  \<open>-l --number=42 -where=here -- -not-an-option- one two three\<close> returns the options
  \<open>l\<close> (empty value), \<open>number\<close> (42) and \<open>where\<close> (here) and the arguments
  \<open>-not-an-option-\<close>, \<open>one\<close>, \<open>two\<close>, \<open>three\<close>.  The token \<open>--\<close> ends the options: it is
  not an argument, and neither it nor the empty name it would leave once its dashes are
  trimmed is a key of the options.
\<close>

theorem ParseArgs_example:
  "ParseArgs (runes ''-l --number=42 -where=here -- -not-an-option- one two three'') =
     \<lparr>Options = [runes ''l'' \<mapsto> runes '''', runes ''number'' \<mapsto> runes ''42'',
                 runes ''where'' \<mapsto> runes ''here''],
      Arguments = map runes [''-not-an-option-'', ''one'', ''two'', ''three'']\<rparr>
   \<and> runes ''--'' \<notin> set (Arguments
         (ParseArgs (runes ''-l --number=42 -where=here -- -not-an-option- one two three'')))
   \<and> Options (ParseArgs (runes ''-l --number=42 -where=here -- -not-an-option- one two three''))
         (runes ''--'') = None
   \<and> Options (ParseArgs (runes ''-l --number=42 -where=here -- -not-an-option- one two three''))
         (runes '''') = None"
  unfolding ParseArgs_def GetArgs_parse_example
  by (simp add: runes_def HasPrefix_def TrimLeft_def)

text \<open>
  Claim C10.  \<open>NextToken\<close> can return the empty token with no error in mid-stream.  On the
  line made of two double quotes, a space and \<open>x\<close>, the first call returns the empty token
  with no error and the closing quote (34) as delimiter; the second call returns \<open>x\<close>; only
  the third call returns the end of the stream.
\<close>

theorem empty_token_midstream:
  "NextToken (NewScannerString ([34, 34] @ runes '' x''))
     = (([], 34, None), \<lparr>rd = runes '' x'', InfieldBrackets = False\<rparr>)
   \<and> NextToken \<lparr>rd = runes '' x'', InfieldBrackets = False\<rparr>
     = ((runes ''x'', 0, None), \<lparr>rd = [], InfieldBrackets = False\<rparr>)
   \<and> NextToken \<lparr>rd = [], InfieldBrackets = False\<rparr>
     = (([], 0, Some EOF), \<lparr>rd = [], InfieldBrackets = False\<rparr>)
   \<and> GetArgs ([34, 34] @ runes '' x'') [] = [[], runes ''x'']"
  by code_simp

end
